theory Spec2Isabelle
  imports Main "HOL-Library.Word" "HOL-Library.Monad_Syntax"
begin

section \<open>The queue of ext/memory/profiler/queue.h\<close>

text \<open>
  \<^verbatim>\<open>size_t\<close> is the 64-bit unsigned word of the platforms the extension is built for:
  \<open>+\<close> and \<open>*\<close> wrap around, \<open>div\<close> is the unsigned division, \<open>SIZE_MAX\<close> is the
  word of all ones.  A call that does not return to its caller (a division by zero, a
  failed \<^verbatim>\<open>assert\<close>, an access outside the allocated block, a loop that never ends)
  has the value \<open>None\<close>; every function that can end so returns an \<open>option\<close>.
\<close>

type_synonym size_t = "64 word"

definition SIZE_MAX :: size_t where
  "SIZE_MAX = - 1"

definition MEMORY_PROFILER_QUEUE_DEFAULT_COUNT :: size_t where
  "MEMORY_PROFILER_QUEUE_DEFAULT_COUNT = 128"

text \<open>
  \<^verbatim>\<open>struct Memory_Profiler_Queue\<close>.  The block \<open>base\<close> points to is the list of the
  elements it has room for (\<^verbatim>\<open>NULL\<close> is the empty list), so a pointer to an element is
  its index in that list.
\<close>

record 'a Memory_Profiler_Queue =
  base :: "'a list"
  capacity :: size_t
  count :: size_t
  element_size :: size_t

text \<open>
  The host's \<^verbatim>\<open>realloc\<close>, as the queue sees it: asked for a number of bytes it fails
  (\<^verbatim>\<open>NULL\<close>, here \<open>None\<close>) or hands out a block that starts with the old contents; the
  function it returns gives the indeterminate value found at each new index.
\<close>

type_synonym 'a allocator = "size_t \<Rightarrow> (nat \<Rightarrow> 'a) option"

definition Memory_Profiler_Queue_initialize :: "size_t \<Rightarrow> 'a Memory_Profiler_Queue" where
  "Memory_Profiler_Queue_initialize esize =
     \<lparr>base = [], capacity = 0, count = 0, element_size = esize\<rparr>"

definition Memory_Profiler_Queue_free :: "'a Memory_Profiler_Queue \<Rightarrow> 'a Memory_Profiler_Queue" where
  "Memory_Profiler_Queue_free queue =
     (let queue = (if base queue \<noteq> [] then queue\<lparr>base := []\<rparr> else queue)
      in queue\<lparr>capacity := 0, count := 0\<rparr>)"

text \<open>
  The doubling loop of \<^verbatim>\<open>Memory_Profiler_Queue_resize\<close> (lines 66-72).  It leaves with the
  new capacity, or with the early \<^verbatim>\<open>return -1\<close> of its overflow check.  The division by
  \<^verbatim>\<open>2 * queue->element_size\<close> is a division by zero when that product is 0 in
  \<^verbatim>\<open>size_t\<close>.
\<close>

datatype growth = Grown size_t | Would_Overflow

partial_function (option) Memory_Profiler_Queue_resize_loop ::
  "size_t \<Rightarrow> size_t \<Rightarrow> size_t \<Rightarrow> growth option" where
  "Memory_Profiler_Queue_resize_loop esize required_capacity new_capacity =
    (if new_capacity < required_capacity then
       (if 2 * esize = 0 then None
        else if new_capacity > SIZE_MAX div (2 * esize) then Some Would_Overflow
        else Memory_Profiler_Queue_resize_loop esize required_capacity (new_capacity * 2))
     else Some (Grown new_capacity))"

declare Memory_Profiler_Queue_resize_loop.simps [code]

text \<open>
  \<^verbatim>\<open>Memory_Profiler_Queue_resize\<close>: the returned \<^verbatim>\<open>int\<close> (0 already big enough, 1 grown,
  -1 failed) and the queue as the call leaves it.  \<^verbatim>\<open>realloc\<close> keeps the old elements
  and the new block has \<open>new_capacity\<close> of them.
\<close>

definition Memory_Profiler_Queue_resize ::
  "'a allocator \<Rightarrow> 'a Memory_Profiler_Queue \<Rightarrow> size_t \<Rightarrow> (int \<times> 'a Memory_Profiler_Queue) option" where
  "Memory_Profiler_Queue_resize realloc queue required_capacity =
    (if required_capacity \<le> capacity queue then Some (0, queue)
     else
       let new_capacity = capacity queue;
           new_capacity = (if new_capacity = 0 then MEMORY_PROFILER_QUEUE_DEFAULT_COUNT else new_capacity)
       in case Memory_Profiler_Queue_resize_loop (element_size queue) required_capacity new_capacity of
            None \<Rightarrow> None
          | Some Would_Overflow \<Rightarrow> Some (- 1, queue)
          | Some (Grown new_capacity) \<Rightarrow>
              if element_size queue = 0 then None
              else if new_capacity > SIZE_MAX div element_size queue then Some (- 1, queue)
              else (case realloc (new_capacity * element_size queue) of
                      None \<Rightarrow> Some (- 1, queue)
                    | Some fresh \<Rightarrow>
                        Some (1, queue\<lparr>base := take (unat new_capacity) (base queue)
                                               @ map fresh [length (base queue)..<unat new_capacity],
                                       capacity := new_capacity\<rparr>)))"

text \<open>
  \<^verbatim>\<open>Memory_Profiler_Queue_push\<close>: the pointer it returns (\<open>None\<close> is \<^verbatim>\<open>NULL\<close>) and the
  queue afterwards.  The pointer \<^verbatim>\<open>base + count * element_size\<close> is the element of index
  \<open>count\<close>.
\<close>

definition Memory_Profiler_Queue_push ::
  "'a allocator \<Rightarrow> 'a Memory_Profiler_Queue \<Rightarrow> (nat option \<times> 'a Memory_Profiler_Queue) option" where
  "Memory_Profiler_Queue_push realloc queue =
    (let new_count = count queue + 1 in
     if new_count > capacity queue then
       (case Memory_Profiler_Queue_resize realloc queue new_count of
          None \<Rightarrow> None
        | Some (r, queue) \<Rightarrow>
            if r = - 1 then Some (None, queue)
            else Some (Some (unat (count queue)), queue\<lparr>count := count queue + 1\<rparr>))
     else Some (Some (unat (count queue)), queue\<lparr>count := count queue + 1\<rparr>))"

definition Memory_Profiler_Queue_clear :: "'a Memory_Profiler_Queue \<Rightarrow> 'a Memory_Profiler_Queue" where
  "Memory_Profiler_Queue_clear queue = queue\<lparr>count := 0\<rparr>"

text \<open>
  \<^verbatim>\<open>Memory_Profiler_Queue_at\<close>: the \<^verbatim>\<open>assert\<close> stops the process when the index is not
  below the count.  The index is a \<^verbatim>\<open>size_t\<close> given by its value.
\<close>

definition Memory_Profiler_Queue_at :: "'a Memory_Profiler_Queue \<Rightarrow> nat \<Rightarrow> nat option" where
  "Memory_Profiler_Queue_at queue index =
     (if index < unat (count queue) then Some index else None)"

text \<open>Reading and writing the element a pointer designates; outside the block there is none.\<close>

definition element_read :: "'a Memory_Profiler_Queue \<Rightarrow> nat \<Rightarrow> 'a option" where
  "element_read queue p = (if p < length (base queue) then Some (base queue ! p) else None)"

definition element_write ::
  "'a Memory_Profiler_Queue \<Rightarrow> nat \<Rightarrow> 'a \<Rightarrow> 'a Memory_Profiler_Queue option" where
  "element_write queue p v =
     (if p < length (base queue) then Some (queue\<lparr>base := (base queue)[p := v]\<rparr>) else None)"

subsection \<open>The queue as its callers use it\<close>

text \<open>
  A caller stores a record by writing it through the pointer that
  \<^verbatim>\<open>Memory_Profiler_Queue_push\<close> returned, and drops it when the pointer is \<^verbatim>\<open>NULL\<close>
  (as \<^verbatim>\<open>Memory_Profiler_Events_enqueue\<close> does); it reads a record through the pointer
  \<^verbatim>\<open>Memory_Profiler_Queue_at\<close> returned.
\<close>

definition store_record ::
  "'a allocator \<Rightarrow> 'a \<Rightarrow> 'a Memory_Profiler_Queue \<Rightarrow> 'a Memory_Profiler_Queue option" where
  "store_record realloc v queue =
     (case Memory_Profiler_Queue_push realloc queue of
        None \<Rightarrow> None
      | Some (None, queue) \<Rightarrow> Some queue
      | Some (Some p, queue) \<Rightarrow> element_write queue p v)"

primrec store_records ::
  "'a allocator \<Rightarrow> 'a list \<Rightarrow> 'a Memory_Profiler_Queue \<Rightarrow> 'a Memory_Profiler_Queue option" where
  "store_records realloc [] queue = Some queue"
| "store_records realloc (v # vs) queue =
     (case store_record realloc v queue of
        None \<Rightarrow> None
      | Some queue \<Rightarrow> store_records realloc vs queue)"

definition retrieve :: "'a Memory_Profiler_Queue \<Rightarrow> nat \<Rightarrow> 'a option" where
  "retrieve queue index =
     (case Memory_Profiler_Queue_at queue index of
        None \<Rightarrow> None
      | Some p \<Rightarrow> element_read queue p)"

text \<open>
  Sequences of calls on one queue after its \<^verbatim>\<open>Memory_Profiler_Queue_initialize\<close>;
  \<open>queue_calls\<close> gives the queue after each call of the sequence, in order.
\<close>

datatype 'a queue_op =
  Push "'a allocator"
| At nat
| Clear
| Resize "'a allocator" size_t
| Free

fun queue_call :: "'a queue_op \<Rightarrow> 'a Memory_Profiler_Queue \<Rightarrow> 'a Memory_Profiler_Queue option" where
  "queue_call (Push realloc) queue = map_option snd (Memory_Profiler_Queue_push realloc queue)"
| "queue_call (At index) queue =
     (case Memory_Profiler_Queue_at queue index of None \<Rightarrow> None | Some p \<Rightarrow> Some queue)"
| "queue_call Clear queue = Some (Memory_Profiler_Queue_clear queue)"
| "queue_call (Resize realloc required_capacity) queue =
     map_option snd (Memory_Profiler_Queue_resize realloc queue required_capacity)"
| "queue_call Free queue = Some (Memory_Profiler_Queue_free queue)"

fun queue_calls ::
  "'a queue_op list \<Rightarrow> 'a Memory_Profiler_Queue \<Rightarrow> 'a Memory_Profiler_Queue list option" where
  "queue_calls [] queue = Some []"
| "queue_calls (c # cs) queue =
     (case queue_call c queue of
        None \<Rightarrow> None
      | Some queue \<Rightarrow> map_option ((#) queue) (queue_calls cs queue))"

text \<open>A \<^verbatim>\<open>realloc\<close> that never fails and one that always fails, for the examples.\<close>

definition realloc_zeroed :: "nat allocator" where
  "realloc_zeroed bytes = Some (\<lambda>i. 0)"

definition realloc_fails :: "'a allocator" where
  "realloc_fails bytes = None"

section \<open>Notions the statements about the queue use\<close>

text \<open>
  The capacity that doubling reaches in unbounded arithmetic: the first of \<open>c\<close>, \<open>2 * c\<close>,
  \<open>4 * c\<close>, ... that covers \<open>r\<close>.
\<close>

function unbounded_doubling :: "nat \<Rightarrow> nat \<Rightarrow> nat" where
  "unbounded_doubling c r = (if c = 0 \<or> r \<le> c then c else unbounded_doubling (2 * c) r)"
  by pat_completeness auto
termination
  by (relation "measure (\<lambda>(c, r). r - c)") auto

declare unbounded_doubling.simps [simp del]

text \<open>The capacity the doubling of a resize starts from: the default floor for an empty queue.\<close>

definition first_capacity :: "'a Memory_Profiler_Queue \<Rightarrow> nat" where
  "first_capacity queue =
     unat (if capacity queue = 0 then MEMORY_PROFILER_QUEUE_DEFAULT_COUNT else capacity queue)"

text \<open>
  What holds of a queue between the calls of the sequences above, started from
  \<^verbatim>\<open>Memory_Profiler_Queue_initialize\<close> with the size of a real element (at least one
  byte, and small enough for twice the size to be a \<^verbatim>\<open>size_t\<close>): the block has room for
  \<open>capacity\<close> elements, and the capacity came from the floor by doubling.
\<close>

definition queue_ok :: "'a Memory_Profiler_Queue \<Rightarrow> bool" where
  "queue_ok queue \<longleftrightarrow>
     length (base queue) = unat (capacity queue) \<and>
     count queue \<le> capacity queue \<and>
     (capacity queue = 0 \<or> (\<exists>k. unat (capacity queue) = 128 * 2 ^ k)) \<and>
     0 < unat (element_size queue) \<and> unat (element_size queue) < 2 ^ 63"

text \<open>The state of a queue that holds the records \<open>pre\<close>, stored one by one since its initialisation.\<close>

definition holds :: "'a Memory_Profiler_Queue \<Rightarrow> 'a list \<Rightarrow> bool" where
  "holds q pre \<longleftrightarrow>
     queue_ok q \<and> unat (count q) = length pre \<and> take (length pre) (base q) = pre \<and>
     unat (capacity q) = (if pre = [] then 0 else unbounded_doubling 128 (length pre))"

text \<open>
  What one call of a sequence may do to the queue: the count stays within the capacity,
  the capacity is 0 or the floor doubled some times, no call but \<^verbatim>\<open>free\<close> lowers the
  capacity and a call that raises it doubles it from where it was, \<^verbatim>\<open>clear\<close> changes
  the count only, \<^verbatim>\<open>free\<close> gives the block back.
\<close>

definition call_respects ::
  "'a queue_op \<Rightarrow> 'a Memory_Profiler_Queue \<Rightarrow> 'a Memory_Profiler_Queue \<Rightarrow> bool" where
  "call_respects c before after \<longleftrightarrow>
     count after \<le> capacity after \<and>
     (capacity after = 0 \<or> (\<exists>k. unat (capacity after) = 128 * 2 ^ k)) \<and>
     (c \<noteq> Free \<longrightarrow>
        capacity before \<le> capacity after \<and>
        (capacity after = capacity before \<or>
         (\<exists>k. unat (capacity after) = first_capacity before * 2 ^ k))) \<and>
     (c = Clear \<longrightarrow> after = before\<lparr>count := 0\<rparr>) \<and>
     (c = Free \<longrightarrow> capacity after = 0 \<and> count after = 0 \<and> base after = [])"

section \<open>The event store of ext/memory/profiler/events.c\<close>

text \<open>
  A \<^verbatim>\<open>VALUE\<close> of the host is \<^verbatim>\<open>Qnil\<close> or a reference to an object.
\<close>

datatype VALUE = Qnil | Object nat

text \<open>
  Modelled from the spec: the sentinel kind \<^verbatim>\<open>MEMORY_PROFILER_EVENT_TYPE_NONE\<close>, which
  events.c compares with and stores but which the declaration of
  \<^verbatim>\<open>enum Memory_Profiler_Event_Type\<close> at hand (events.h) does not list.  Section 3 of the
  spec gives the kinds: Allocated, Freed, and None, the sentinel of a drained slot.
\<close>

datatype Memory_Profiler_Event_Type =
  MEMORY_PROFILER_EVENT_TYPE_NONE
| MEMORY_PROFILER_EVENT_TYPE_NEWOBJ
| MEMORY_PROFILER_EVENT_TYPE_FREEOBJ

text \<open>\<^verbatim>\<open>struct Memory_Profiler_Event\<close> (events.h); events.c never touches \<open>allocations\<close>.\<close>

record Memory_Profiler_Event =
  type :: Memory_Profiler_Event_Type
  capture :: VALUE
  klass :: VALUE
  allocations :: VALUE
  object :: VALUE

text \<open>
  \<^verbatim>\<open>sizeof(struct Memory_Profiler_Event)\<close> where \<^verbatim>\<open>size_t\<close> has 64 bits: the \<^verbatim>\<open>enum\<close>,
  padded to 8 bytes, and four \<^verbatim>\<open>VALUE\<close>s.
\<close>

definition sizeof_Memory_Profiler_Event :: size_t where
  "sizeof_Memory_Profiler_Event = 40"

text \<open>
  \<^verbatim>\<open>struct Memory_Profiler_Events\<close>.  The pointers \<^verbatim>\<open>available\<close> and \<^verbatim>\<open>processing\<close>
  always designate the two different elements of \<^verbatim>\<open>queues[2]\<close>: they are set to
  \<^verbatim>\<open>&queues[0]\<close> and \<^verbatim>\<open>&queues[1]\<close> at creation and only ever exchanged.  The record
  keeps the two queues under the pointers that designate them, so exchanging the pointers
  exchanges the fields.
\<close>

record Memory_Profiler_Events =
  self :: VALUE
  available :: "Memory_Profiler_Event Memory_Profiler_Queue"
  processing :: "Memory_Profiler_Event Memory_Profiler_Queue"
  processing_flag :: int
  postponed_job_handle :: nat

text \<open>
  The process as the event store acts on it: the store itself (the one instance
  \<^verbatim>\<open>Memory_Profiler_Events_instance\<close> creates and pins), and what it has asked of the
  host, in the order of the calls: the events given to
  \<^verbatim>\<open>Memory_Profiler_Capture_process_event\<close>, the number of \<^verbatim>\<open>rb_warning\<close> calls, the
  \<^verbatim>\<open>RB_OBJ_WRITE\<close> notifications (the object written to, the value written) and the number
  of \<^verbatim>\<open>rb_postponed_job_trigger\<close> calls.  \<open>enqueue_calls\<close> belongs to the callers of
  \<^verbatim>\<open>Memory_Profiler_Events_enqueue\<close> (the capture, from outside the store and from
  within its handler): the calls they have made, in order, each with its four arguments
  and the value it returned.  The store never reads or writes it.
\<close>

type_synonym request = "Memory_Profiler_Event_Type \<times> VALUE \<times> VALUE \<times> VALUE"

record host =
  events :: Memory_Profiler_Events
  processed :: "Memory_Profiler_Event list"
  warnings :: nat
  obj_writes :: "(VALUE \<times> VALUE) list"
  job_triggers :: nat
  enqueue_calls :: "(request \<times> int) list"

datatype ruby_error = RuntimeError string

text \<open>
  \<^verbatim>\<open>Memory_Profiler_Events_new\<close>, given the wrapper object the host made and the handle
  \<^verbatim>\<open>rb_postponed_job_preregister\<close> returned (\<open>None\<close> is \<^verbatim>\<open>POSTPONED_JOB_HANDLE_INVALID\<close>).
\<close>

definition Memory_Profiler_Events_new :: "VALUE \<Rightarrow> nat option \<Rightarrow> ruby_error + Memory_Profiler_Events" where
  "Memory_Profiler_Events_new wrapper handle =
     (case handle of
        None \<Rightarrow> Inl (RuntimeError ''Failed to register postponed job!'')
      | Some job \<Rightarrow>
          Inr \<lparr>self = wrapper,
               available = Memory_Profiler_Queue_initialize sizeof_Memory_Profiler_Event,
               processing = Memory_Profiler_Queue_initialize sizeof_Memory_Profiler_Event,
               processing_flag = 0,
               postponed_job_handle = job\<rparr>)"

text \<open>The process right after the store was created.\<close>

definition host_with :: "Memory_Profiler_Events \<Rightarrow> host" where
  "host_with ev =
     \<lparr>events = ev, processed = [], warnings = 0, obj_writes = [], job_triggers = 0,
      enqueue_calls = []\<rparr>"

subsection \<open>The collector's callbacks\<close>

text \<open>
  \<^verbatim>\<open>Memory_Profiler_Events_mark_queue\<close>: the loop from index \<open>i\<close> on, with the values
  given to \<^verbatim>\<open>rb_gc_mark_movable\<close> so far.  The index is a \<^verbatim>\<open>size_t\<close> below the count, so
  it never wraps.
\<close>

function Memory_Profiler_Events_mark_queue_from ::
  "Memory_Profiler_Event Memory_Profiler_Queue \<Rightarrow> int \<Rightarrow> nat \<Rightarrow> VALUE list \<Rightarrow> VALUE list option" where
  "Memory_Profiler_Events_mark_queue_from queue skip_none i marked =
     (if i < unat (count queue) then
        do {
          event \<leftarrow> Memory_Profiler_Queue_at queue i;
          slot \<leftarrow> element_read queue event;
          if skip_none \<noteq> 0 \<and> type slot = MEMORY_PROFILER_EVENT_TYPE_NONE
          then Memory_Profiler_Events_mark_queue_from queue skip_none (i + 1) marked
          else
            let marked = marked @ [capture slot];
                marked = marked @ [klass slot];
                marked = (if type slot = MEMORY_PROFILER_EVENT_TYPE_NEWOBJ
                          then marked @ [object slot] else marked)
            in Memory_Profiler_Events_mark_queue_from queue skip_none (i + 1) marked
        }
      else Some marked)"
  by pat_completeness auto
termination
  by (relation "measure (\<lambda>(queue, skip_none, i, marked). unat (count queue) - i)") auto

declare Memory_Profiler_Events_mark_queue_from.simps [simp del]

definition Memory_Profiler_Events_mark_queue ::
  "Memory_Profiler_Event Memory_Profiler_Queue \<Rightarrow> int \<Rightarrow> VALUE list option" where
  "Memory_Profiler_Events_mark_queue queue skip_none =
     Memory_Profiler_Events_mark_queue_from queue skip_none 0 []"

definition Memory_Profiler_Events_mark :: "Memory_Profiler_Events \<Rightarrow> VALUE list option" where
  "Memory_Profiler_Events_mark ev =
     do {
       marked_available \<leftarrow> Memory_Profiler_Events_mark_queue (available ev) 0;
       marked_processing \<leftarrow> Memory_Profiler_Events_mark_queue (processing ev) 1;
       Some (marked_available @ marked_processing)
     }"

text \<open>
  \<^verbatim>\<open>Memory_Profiler_Events_compact_queue\<close>, given the host's \<^verbatim>\<open>rb_gc_location\<close>: the loop
  from index \<open>i\<close> on.
\<close>

function Memory_Profiler_Events_compact_queue_from ::
  "(VALUE \<Rightarrow> VALUE) \<Rightarrow> Memory_Profiler_Event Memory_Profiler_Queue \<Rightarrow> int \<Rightarrow> nat
     \<Rightarrow> Memory_Profiler_Event Memory_Profiler_Queue option" where
  "Memory_Profiler_Events_compact_queue_from rb_gc_location queue skip_none i =
     (if i < unat (count queue) then
        do {
          event \<leftarrow> Memory_Profiler_Queue_at queue i;
          slot \<leftarrow> element_read queue event;
          if skip_none \<noteq> 0 \<and> type slot = MEMORY_PROFILER_EVENT_TYPE_NONE
          then Memory_Profiler_Events_compact_queue_from rb_gc_location queue skip_none (i + 1)
          else
            let slot = slot\<lparr>capture := rb_gc_location (capture slot)\<rparr>;
                slot = slot\<lparr>klass := rb_gc_location (klass slot)\<rparr>;
                slot = (if type slot = MEMORY_PROFILER_EVENT_TYPE_NEWOBJ
                        then slot\<lparr>object := rb_gc_location (object slot)\<rparr> else slot)
            in Memory_Profiler_Events_compact_queue_from rb_gc_location
                 (queue\<lparr>base := (base queue)[event := slot]\<rparr>) skip_none (i + 1)
        }
      else Some queue)"
  by pat_completeness auto
termination
  by (relation "measure (\<lambda>(rb_gc_location, queue, skip_none, i). unat (count queue) - i)") auto

declare Memory_Profiler_Events_compact_queue_from.simps [simp del]

definition Memory_Profiler_Events_compact_queue ::
  "(VALUE \<Rightarrow> VALUE) \<Rightarrow> Memory_Profiler_Event Memory_Profiler_Queue \<Rightarrow> int
     \<Rightarrow> Memory_Profiler_Event Memory_Profiler_Queue option" where
  "Memory_Profiler_Events_compact_queue rb_gc_location queue skip_none =
     Memory_Profiler_Events_compact_queue_from rb_gc_location queue skip_none 0"

definition Memory_Profiler_Events_compact ::
  "(VALUE \<Rightarrow> VALUE) \<Rightarrow> Memory_Profiler_Events \<Rightarrow> Memory_Profiler_Events option" where
  "Memory_Profiler_Events_compact rb_gc_location ev =
     do {
       queue \<leftarrow> Memory_Profiler_Events_compact_queue rb_gc_location (available ev) 0;
       let ev = ev\<lparr>available := queue\<rparr>;
       queue \<leftarrow> Memory_Profiler_Events_compact_queue rb_gc_location (processing ev) 1;
       Some (ev\<lparr>processing := queue\<rparr>)
     }"

definition Memory_Profiler_Events_free :: "Memory_Profiler_Events \<Rightarrow> Memory_Profiler_Events" where
  "Memory_Profiler_Events_free ev =
     ev\<lparr>available := Memory_Profiler_Queue_free (available ev),
        processing := Memory_Profiler_Queue_free (processing ev)\<rparr>"

subsection \<open>Enqueue\<close>

text \<open>
  \<^verbatim>\<open>RB_OBJ_WRITE(old, &slot, young)\<close> stores \<open>young\<close> and tells the collector that \<open>old\<close>
  now refers to it; the store is made on the slot, the notification is kept here.
\<close>

definition RB_OBJ_WRITE :: "VALUE \<Rightarrow> VALUE \<Rightarrow> host \<Rightarrow> host" where
  "RB_OBJ_WRITE old young h = h\<lparr>obj_writes := obj_writes h @ [(old, young)]\<rparr>"

text \<open>
  \<^verbatim>\<open>Memory_Profiler_Events_enqueue\<close>, given what \<^verbatim>\<open>realloc\<close> does if the queue has to
  grow during the call: the returned \<^verbatim>\<open>int\<close> and the process afterwards.
\<close>

definition Memory_Profiler_Events_enqueue ::
  "Memory_Profiler_Event allocator \<Rightarrow> Memory_Profiler_Event_Type \<Rightarrow> VALUE \<Rightarrow> VALUE \<Rightarrow> VALUE
     \<Rightarrow> host \<Rightarrow> (int \<times> host) option" where
  "Memory_Profiler_Events_enqueue realloc ty capture_ref klass_ref object_ref h =
     do {
       (event, queue) \<leftarrow> Memory_Profiler_Queue_push realloc (available (events h));
       let h = h\<lparr>events := (events h)\<lparr>available := queue\<rparr>\<rparr>;
       case event of
         Some event \<Rightarrow>
           do {
             slot \<leftarrow> element_read queue event;
             let slot = slot\<lparr>type := ty\<rparr>;
             let slot = slot\<lparr>capture := capture_ref\<rparr>;
             let h = RB_OBJ_WRITE (self (events h)) capture_ref h;
             let slot = slot\<lparr>klass := klass_ref\<rparr>;
             let h = RB_OBJ_WRITE (self (events h)) klass_ref h;
             let slot = slot\<lparr>object := object_ref\<rparr>;
             let h = RB_OBJ_WRITE (self (events h)) object_ref h;
             queue \<leftarrow> element_write queue event slot;
             let h = h\<lparr>events := (events h)\<lparr>available := queue\<rparr>\<rparr>;
             let h = h\<lparr>job_triggers := job_triggers h + 1\<rparr>;
             Some (1, h)
           }
       | None \<Rightarrow> Some (0, h)
     }"

text \<open>
  A caller of \<^verbatim>\<open>Memory_Profiler_Events_enqueue\<close>: it makes the call and keeps the
  arguments and the value returned.
\<close>

definition enqueue_call ::
  "Memory_Profiler_Event allocator \<Rightarrow> Memory_Profiler_Event_Type \<Rightarrow> VALUE \<Rightarrow> VALUE \<Rightarrow> VALUE
     \<Rightarrow> host \<Rightarrow> host option" where
  "enqueue_call realloc ty capture_ref klass_ref object_ref h =
     do {
       (r, h) \<leftarrow> Memory_Profiler_Events_enqueue realloc ty capture_ref klass_ref object_ref h;
       Some (h\<lparr>enqueue_calls := enqueue_calls h @ [((ty, capture_ref, klass_ref, object_ref), r)]\<rparr>)
     }"

subsection \<open>Drain\<close>

text \<open>
  \<^verbatim>\<open>Memory_Profiler_Capture_process_event\<close> belongs to the capture (capture.c), outside the
  event store; it runs code of the host that may call back into the store.  Its conduct
  on one event is given from outside: the calls it makes into the store, in order, and
  whether it raises in the end.  A call it makes while the queue is processed is an
  enqueue (an allocation or a free was traced), the deferred callback
  \<^verbatim>\<open>Memory_Profiler_Events_process_queue\<close> fired by the host at a safe point, or
  \<^verbatim>\<open>Memory_Profiler_Events_process_all\<close>; the last two come with the conduct of the handler
  on the events they would process.  An exception that \<^verbatim>\<open>Memory_Profiler_Events_process_all\<close>
  raises ends the handler there.
\<close>

datatype store_call =
  Enqueue "Memory_Profiler_Event allocator" Memory_Profiler_Event_Type VALUE VALUE VALUE
| Process_Queue "conduct list"
| Process_All "conduct list"
and conduct = Conduct (calls: "store_call list") (raises: bool)

text \<open>
  Lines 289-293 of events.c, on the event of the processing queue that \<open>event\<close> points
  to: the kind becomes the sentinel and the three references become \<^verbatim>\<open>Qnil\<close>.
\<close>

definition clear_event :: "nat \<Rightarrow> host \<Rightarrow> host option" where
  "clear_event event h =
     do {
       slot \<leftarrow> element_read (processing (events h)) event;
       let slot = slot\<lparr>type := MEMORY_PROFILER_EVENT_TYPE_NONE\<rparr>;
       let slot = slot\<lparr>capture := Qnil\<rparr>;
       let h = RB_OBJ_WRITE (self (events h)) Qnil h;
       let slot = slot\<lparr>klass := Qnil\<rparr>;
       let h = RB_OBJ_WRITE (self (events h)) Qnil h;
       let slot = slot\<lparr>object := Qnil\<rparr>;
       let h = RB_OBJ_WRITE (self (events h)) Qnil h;
       queue \<leftarrow> element_write (processing (events h)) event slot;
       Some (h\<lparr>events := (events h)\<lparr>processing := queue\<rparr>\<rparr>)
     }"

definition rb_warning :: "host \<Rightarrow> host" where
  "rb_warning h = h\<lparr>warnings := warnings h + 1\<rparr>"

text \<open>
  \<^verbatim>\<open>Memory_Profiler_Events_process_all\<close>, \<^verbatim>\<open>Memory_Profiler_Events_process_queue\<close>, its
  loop from index \<open>i\<close> on, and the handler running its calls.  The list of conducts says
  how the handler behaves on the events of the loop, in order; past its end the handler
  returns without calling the store.  \<open>process_event\<close> returns whether the handler raised,
  which is what \<^verbatim>\<open>rb_protect\<close> reports in \<^verbatim>\<open>state\<close>.
\<close>

function Memory_Profiler_Events_process_all :: "conduct list \<Rightarrow> host \<Rightarrow> (ruby_error + host) option"
  and Memory_Profiler_Events_process_queue :: "conduct list \<Rightarrow> host \<Rightarrow> host option"
  and Memory_Profiler_Events_process_queue_from :: "conduct list \<Rightarrow> nat \<Rightarrow> host \<Rightarrow> host option"
  and process_event :: "store_call list \<Rightarrow> bool \<Rightarrow> host \<Rightarrow> (bool \<times> host) option"
where
  "Memory_Profiler_Events_process_all conducts h =
     (if processing_flag (events h) \<noteq> 0
      then Some (Inl (RuntimeError ''Recursive call detected!''))
      else map_option Inr (Memory_Profiler_Events_process_queue conducts h))"
| "Memory_Profiler_Events_process_queue conducts h =
     (if processing_flag (events h) \<noteq> 0 then Some h
      else
        let ev = events h;
            ev = ev\<lparr>processing_flag := 1\<rparr>;
            queue_to_process = available ev;
            ev = ev\<lparr>available := processing ev\<rparr>;
            ev = ev\<lparr>processing := queue_to_process\<rparr>;
            h = h\<lparr>events := ev\<rparr>
        in do {
          h \<leftarrow> Memory_Profiler_Events_process_queue_from conducts 0 h;
          let ev = events h;
          let ev = ev\<lparr>processing := Memory_Profiler_Queue_clear (processing ev)\<rparr>;
          let ev = ev\<lparr>processing_flag := 0\<rparr>;
          Some (h\<lparr>events := ev\<rparr>)
        })"
| "Memory_Profiler_Events_process_queue_from conducts i h =
     (if i < unat (count (processing (events h))) then
        do {
          event \<leftarrow> Memory_Profiler_Queue_at (processing (events h)) i;
          slot \<leftarrow> element_read (processing (events h)) event;
          let h = h\<lparr>processed := processed h @ [slot]\<rparr>;
          (state, h) \<leftarrow> (case conducts of
                           [] \<Rightarrow> Some (False, h)
                         | c # _ \<Rightarrow> process_event (calls c) (raises c) h);
          let h = (if state then rb_warning h else h);
          h \<leftarrow> clear_event event h;
          Memory_Profiler_Events_process_queue_from (tl conducts) (i + 1) h
        }
      else Some h)"
| "process_event [] raise h = Some (raise, h)"
| "process_event (Enqueue realloc ty capture_ref klass_ref object_ref # rest) raise h =
     do {
       h \<leftarrow> enqueue_call realloc ty capture_ref klass_ref object_ref h;
       process_event rest raise h
     }"
| "process_event (Process_Queue conducts # rest) raise h =
     do {
       h \<leftarrow> Memory_Profiler_Events_process_queue conducts h;
       process_event rest raise h
     }"
| "process_event (Process_All conducts # rest) raise h =
     do {
       r \<leftarrow> Memory_Profiler_Events_process_all conducts h;
       case r of
         Inl error \<Rightarrow> Some (True, h)
       | Inr h \<Rightarrow> process_event rest raise h
     }"
  by pat_completeness auto
termination
proof (relation "inv_image (less_than <*lex*> less_than <*lex*> less_than)
      (\<lambda>x. case x of
          Inl (Inl (conducts, h)) \<Rightarrow> (size_list size conducts, 3, 0)
        | Inl (Inr (conducts, h)) \<Rightarrow> (size_list size conducts, 2, 0)
        | Inr (Inl (conducts, i, h)) \<Rightarrow>
            (size_list size conducts, 1, unat (count (processing (events h))) - i)
        | Inr (Inr (cs, raise, h)) \<Rightarrow> (size_list size cs, 0 :: nat, 0 :: nat))", goal_cases)
  case 1
  show ?case by (intro wf_inv_image wf_lex_prod wf_less_than)
next
  case 2
  then show ?case by simp
next
  case 3
  then show ?case by simp
next
  case (4 conducts i h event slot h1 c cs)
  then show ?case by (cases c) simp
next
  case (5 conducts i h event slot h1 r state h2 h3 h4)
  then show ?case
    by (cases conducts)
      (auto simp: clear_event_def RB_OBJ_WRITE_def rb_warning_def element_write_def Let_def
            split: if_splits Option.bind_splits)
next
  case 6
  then show ?case by simp
next
  case 7
  then show ?case by simp
next
  case 8
  then show ?case by simp
next
  case 9
  then show ?case by simp
next
  case 10
  then show ?case by simp
qed

declare Memory_Profiler_Events_process_all.simps [simp del]
declare Memory_Profiler_Events_process_queue.simps [simp del]
declare Memory_Profiler_Events_process_queue_from.simps [simp del]

text \<open>
  Line 276 on its own, \<^verbatim>\<open>rb_protect(Memory_Profiler_Events_process_event_protected, ...)\<close>:
  the handler runs on the event at hand, and \<^verbatim>\<open>rb_protect\<close> reports whether it raised.
\<close>

definition Memory_Profiler_Events_process_event_protected ::
  "conduct list \<Rightarrow> host \<Rightarrow> (bool \<times> host) option" where
  "Memory_Profiler_Events_process_event_protected conducts h =
     (case conducts of
        [] \<Rightarrow> Some (False, h)
      | c # _ \<Rightarrow> process_event (calls c) (raises c) h)"

text \<open>
  Lines 267-293 of events.c on their own: one pass through the body of the loop of
  \<^verbatim>\<open>Memory_Profiler_Events_process_queue\<close>, at index \<open>i\<close>.  The event is given to the
  handler under \<^verbatim>\<open>rb_protect\<close>, a warning is issued if it raised, and the slot is reset.
\<close>

definition process_queue_body :: "conduct list \<Rightarrow> nat \<Rightarrow> host \<Rightarrow> host option" where
  "process_queue_body conducts i h =
     do {
       event \<leftarrow> Memory_Profiler_Queue_at (processing (events h)) i;
       slot \<leftarrow> element_read (processing (events h)) event;
       let h = h\<lparr>processed := processed h @ [slot]\<rparr>;
       (state, h) \<leftarrow> Memory_Profiler_Events_process_event_protected conducts h;
       let h = (if state then rb_warning h else h);
       clear_event event h
     }"

text \<open>
  The process when the loop, started at index 0 in \<open>h\<close>, comes to test its condition at
  index \<open>k\<close>: after \<open>k\<close> passes through the body, at the indices 0 to \<open>k - 1\<close>.
\<close>

fun process_queue_reaches :: "nat \<Rightarrow> conduct list \<Rightarrow> host \<Rightarrow> host option" where
  "process_queue_reaches 0 conducts h = Some h"
| "process_queue_reaches (Suc k) conducts h =
     do {
       h \<leftarrow> process_queue_reaches k conducts h;
       process_queue_body (drop k conducts) k h
     }"

subsection \<open>Sequences of calls\<close>

text \<open>
  The calls the capture and the host make into the store from outside a drain, one after
  the other.  An exception of \<^verbatim>\<open>Memory_Profiler_Events_process_all\<close> goes to its caller
  and leaves the store as it was.
\<close>

fun store_calls :: "store_call list \<Rightarrow> host \<Rightarrow> host option" where
  "store_calls [] h = Some h"
| "store_calls (Enqueue realloc ty capture_ref klass_ref object_ref # rest) h =
     do {
       h \<leftarrow> enqueue_call realloc ty capture_ref klass_ref object_ref h;
       store_calls rest h
     }"
| "store_calls (Process_Queue conducts # rest) h =
     do {
       h \<leftarrow> Memory_Profiler_Events_process_queue conducts h;
       store_calls rest h
     }"
| "store_calls (Process_All conducts # rest) h =
     do {
       r \<leftarrow> Memory_Profiler_Events_process_all conducts h;
       case r of
         Inl error \<Rightarrow> store_calls rest h
       | Inr h \<Rightarrow> store_calls rest h
     }"

text \<open>A \<^verbatim>\<open>realloc\<close> for the examples: it never fails and the new block is blank.\<close>

definition blank_event :: Memory_Profiler_Event where
  "blank_event =
     \<lparr>type = MEMORY_PROFILER_EVENT_TYPE_NONE, capture = Qnil, klass = Qnil,
      allocations = Qnil, object = Qnil\<rparr>"

definition realloc_blank :: "Memory_Profiler_Event allocator" where
  "realloc_blank bytes = Some (\<lambda>i. blank_event)"

subsection \<open>Examples\<close>

text \<open>
  A store as \<^verbatim>\<open>Memory_Profiler_Events_new\<close> makes it, the creation and the destruction
  event of one object, and a sequence of calls: the creation is enqueued; the deferred
  callback drains the queue, and while the creation is handled the handler enqueues the
  destruction, the deferred callback fires again and the handler calls
  \<^verbatim>\<open>Memory_Profiler_Events_process_all\<close>; at last the capture flushes the queue.
\<close>

definition example_store :: Memory_Profiler_Events where
  "example_store =
     \<lparr>self = Object 0,
      available = Memory_Profiler_Queue_initialize sizeof_Memory_Profiler_Event,
      processing = Memory_Profiler_Queue_initialize sizeof_Memory_Profiler_Event,
      processing_flag = 0,
      postponed_job_handle = 7\<rparr>"

definition created :: Memory_Profiler_Event where
  "created =
     \<lparr>type = MEMORY_PROFILER_EVENT_TYPE_NEWOBJ, capture = Object 1, klass = Object 2,
      allocations = Qnil, object = Object 3\<rparr>"

definition destroyed :: Memory_Profiler_Event where
  "destroyed =
     \<lparr>type = MEMORY_PROFILER_EVENT_TYPE_FREEOBJ, capture = Object 1, klass = Object 2,
      allocations = Qnil, object = Object 3\<rparr>"

definition example_calls :: "store_call list" where
  "example_calls =
     [Enqueue realloc_blank MEMORY_PROFILER_EVENT_TYPE_NEWOBJ (Object 1) (Object 2) (Object 3),
      Process_Queue
        [Conduct
           [Enqueue realloc_blank MEMORY_PROFILER_EVENT_TYPE_FREEOBJ (Object 1) (Object 2) (Object 3),
            Process_Queue [],
            Process_All []]
           False],
      Process_All []]"

text \<open>A queue of the store with the given records waiting in a block of 128 slots.\<close>

definition queue_of :: "Memory_Profiler_Event list \<Rightarrow> Memory_Profiler_Event Memory_Profiler_Queue" where
  "queue_of records =
     \<lparr>base = records @ replicate (128 - length records) blank_event,
      capacity = 128, count = of_nat (length records),
      element_size = sizeof_Memory_Profiler_Event\<rparr>"

text \<open>
  A process in the middle of a drain, as the handler of the one waiting event finds it
  (the flag is set); a store whose available queue
  holds a creation and a destruction while its processing queue holds a handled slot and
  a creation; a process with three events waiting; handlers of which the second raises;
  and a collector that moves every object.
\<close>

definition draining_example :: host where
  "draining_example =
     (host_with (example_store\<lparr>processing := queue_of [created], processing_flag := 1\<rparr>))
       \<lparr>processed := [created], job_triggers := 1,
        enqueue_calls := [((MEMORY_PROFILER_EVENT_TYPE_NEWOBJ, Object 1, Object 2, Object 3), 1)],
        obj_writes := [(Object 0, Object 1), (Object 0, Object 2), (Object 0, Object 3)]\<rparr>"

definition walk_example :: Memory_Profiler_Events where
  "walk_example =
     example_store\<lparr>available := queue_of [created, destroyed],
                   processing := queue_of [blank_event, created],
                   processing_flag := 1\<rparr>"

definition created_other :: Memory_Profiler_Event where
  "created_other =
     \<lparr>type = MEMORY_PROFILER_EVENT_TYPE_NEWOBJ, capture = Object 1, klass = Object 2,
      allocations = Qnil, object = Object 4\<rparr>"

definition three_waiting :: host where
  "three_waiting =
     host_with (example_store\<lparr>available := queue_of [created, destroyed, created_other]\<rparr>)"

definition second_raises :: "conduct list" where
  "second_raises = [Conduct [] False, Conduct [] True, Conduct [] False]"

definition example_location :: "VALUE \<Rightarrow> VALUE" where
  "example_location v = (case v of Qnil \<Rightarrow> Qnil | Object n \<Rightarrow> Object (n + 10))"

section \<open>Notions the statements about the event store use\<close>

text \<open>The records a queue holds, oldest first: its elements below the count.\<close>

definition pending :: "'a Memory_Profiler_Queue \<Rightarrow> 'a list" where
  "pending queue = take (unat (count queue)) (base queue)"

text \<open>Both queues of the store are as a queue is between calls.\<close>

definition store_ok :: "Memory_Profiler_Events \<Rightarrow> bool" where
  "store_ok ev \<longleftrightarrow> queue_ok (available ev) \<and> queue_ok (processing ev)"

text \<open>A slot after lines 289-293 of events.c: the sentinel kind and no reference.\<close>

definition cleared :: "Memory_Profiler_Event \<Rightarrow> bool" where
  "cleared slot \<longleftrightarrow>
     type slot = MEMORY_PROFILER_EVENT_TYPE_NONE \<and>
     capture slot = Qnil \<and> klass slot = Qnil \<and> object slot = Qnil"

text \<open>
  The references of a record as section 3 of the spec has them: the owning context, the
  class, and, for an allocation only, the object.
\<close>

definition references_of :: "Memory_Profiler_Event \<Rightarrow> VALUE list" where
  "references_of event =
     [capture event, klass event] @
     (if type event = MEMORY_PROFILER_EVENT_TYPE_NEWOBJ then [object event] else [])"

text \<open>The same references after the collector has moved objects.\<close>

definition relocated :: "(VALUE \<Rightarrow> VALUE) \<Rightarrow> Memory_Profiler_Event \<Rightarrow> Memory_Profiler_Event" where
  "relocated rb_gc_location event =
     event\<lparr>capture := rb_gc_location (capture event),
           klass := rb_gc_location (klass event),
           object := (if type event = MEMORY_PROFILER_EVENT_TYPE_NEWOBJ
                      then rb_gc_location (object event) else object event)\<rparr>"

text \<open>The sentinel slots, which a walk with \<^verbatim>\<open>skip_none\<close> set passes over.\<close>

definition sentinel :: "Memory_Profiler_Event \<Rightarrow> bool" where
  "sentinel event \<longleftrightarrow> type event = MEMORY_PROFILER_EVENT_TYPE_NONE"

text \<open>
  The records a walk with the given \<^verbatim>\<open>skip_none\<close> does not pass over, and what the
  relocation walk makes of a record.
\<close>

definition walked :: "int \<Rightarrow> Memory_Profiler_Event \<Rightarrow> bool" where
  "walked skip_none event \<longleftrightarrow> \<not> (skip_none \<noteq> 0 \<and> sentinel event)"

definition moved :: "(VALUE \<Rightarrow> VALUE) \<Rightarrow> int \<Rightarrow> Memory_Profiler_Event \<Rightarrow> Memory_Profiler_Event" where
  "moved rb_gc_location skip_none event =
     (if walked skip_none event then relocated rb_gc_location event else event)"

text \<open>The slot that an enqueue leaves: the four members it assigns, the rest as found.\<close>

definition stored ::
  "Memory_Profiler_Event \<Rightarrow> Memory_Profiler_Event_Type \<Rightarrow> VALUE \<Rightarrow> VALUE \<Rightarrow> VALUE \<Rightarrow> Memory_Profiler_Event" where
  "stored slot ty c k ob = slot\<lparr>type := ty, capture := c, klass := k, object := ob\<rparr>"

text \<open>The slot that lines 289-293 of events.c leave.\<close>

definition clear_slot :: "Memory_Profiler_Event \<Rightarrow> Memory_Profiler_Event" where
  "clear_slot slot =
     slot\<lparr>type := MEMORY_PROFILER_EVENT_TYPE_NONE, capture := Qnil, klass := Qnil, object := Qnil\<rparr>"

text \<open>
  What a caller asked to be enqueued, as an event holds it; and, of a list of enqueue
  calls with their returned values, the requests of the calls that returned 1, in the
  order of the calls.  The accepted requests of a process are those of all the calls its
  callers have made.
\<close>

definition request_of :: "Memory_Profiler_Event \<Rightarrow> request" where
  "request_of event = (type event, capture event, klass event, object event)"

definition accepted_of :: "(request \<times> int) list \<Rightarrow> request list" where
  "accepted_of made = map fst (filter (\<lambda>call. snd call = 1) made)"

definition accepted :: "host \<Rightarrow> request list" where
  "accepted h = accepted_of (enqueue_calls h)"

text \<open>
  The enqueue calls a handler makes while the queue is processed, read off the calls of
  its conduct: its \<open>Enqueue\<close> calls up to its first call of
  \<^verbatim>\<open>Memory_Profiler_Events_process_all\<close>, which ends it; and those of the handlers of a
  list of events.
\<close>

fun requests_made :: "store_call list \<Rightarrow> request list" where
  "requests_made [] = []"
| "requests_made (Enqueue realloc ty capture_ref klass_ref object_ref # rest) =
     (ty, capture_ref, klass_ref, object_ref) # requests_made rest"
| "requests_made (Process_Queue conducts # rest) = requests_made rest"
| "requests_made (Process_All conducts # rest) = []"

definition handler_requests :: "conduct list \<Rightarrow> request list" where
  "handler_requests conducts = concat (map (\<lambda>c. requests_made (calls c)) conducts)"

text \<open>
  The enqueue calls that a sequence of calls made from outside a drain prescribes, read
  off the sequence, when \<open>waiting\<close> events wait in the available queue and the enqueue
  calls return the values \<open>returned\<close>, in order: each \<open>Enqueue\<close> of the sequence, and for
  each drain the calls of the handlers of the events that wait when it starts.  An
  enqueue that returns 1 adds a waiting event; after a drain the waiting events are those
  its handlers enqueued.
\<close>

fun prescribed_calls :: "store_call list \<Rightarrow> nat \<Rightarrow> int list \<Rightarrow> request list" where
  "prescribed_calls [] waiting returned = []"
| "prescribed_calls (Enqueue realloc ty capture_ref klass_ref object_ref # rest) waiting returned =
     (ty, capture_ref, klass_ref, object_ref) #
     (case returned of
        [] \<Rightarrow> prescribed_calls rest waiting []
      | r # returned \<Rightarrow> prescribed_calls rest (if r = 1 then waiting + 1 else waiting) returned)"
| "prescribed_calls (Process_Queue conducts # rest) waiting returned =
     (let made = handler_requests (take waiting conducts)
      in made @ prescribed_calls rest
           (length (filter (\<lambda>r. r = 1) (take (length made) returned)))
           (drop (length made) returned))"
| "prescribed_calls (Process_All conducts # rest) waiting returned =
     (let made = handler_requests (take waiting conducts)
      in made @ prescribed_calls rest
           (length (filter (\<lambda>r. r = 1) (take (length made) returned)))
           (drop (length made) returned))"

text \<open>
  What a handler does to the process while the queue is being processed, as the lemmas
  below show: its enqueue calls \<open>made\<close> add the records \<open>new\<close> to the available queue, one
  for each call that returned 1, and it leaves the processing queue, the flag and the list
  of processed events alone.
\<close>

definition only_enqueued ::
  "host \<Rightarrow> host \<Rightarrow> (request \<times> int) list \<Rightarrow> Memory_Profiler_Event list \<Rightarrow> bool" where
  "only_enqueued h h' made new \<longleftrightarrow>
     store_ok (events h') \<and>
     processing (events h') = processing (events h) \<and>
     processing_flag (events h') = processing_flag (events h) \<and>
     self (events h') = self (events h) \<and>
     processed h' = processed h \<and> warnings h' = warnings h \<and>
     enqueue_calls h' = enqueue_calls h @ made \<and>
     map request_of new = accepted_of made \<and>
     pending (available (events h')) = pending (available (events h)) @ new"

text \<open>
  The handler faults on an event: it raises itself, or it calls
  \<^verbatim>\<open>Memory_Profiler_Events_process_all\<close>, which raises while the queue is processed.
\<close>

definition faults :: "conduct \<Rightarrow> bool" where
  "faults c \<longleftrightarrow> raises c \<or> (\<exists>conducts. Process_All conducts \<in> set (calls c))"

text \<open>The process as the loop of a drain finds it: the flag set and the queues exchanged.\<close>

definition drain_started :: "host \<Rightarrow> host" where
  "drain_started h =
     h\<lparr>events := (events h)\<lparr>processing_flag := 1,
                              available := processing (events h),
                              processing := available (events h)\<rparr>\<rparr>"

text \<open>
  The process between two calls from outside: no drain is running, the processing queue
  is empty, and the accepted requests are those of the processed events followed by those
  of the waiting ones.
\<close>

definition idle :: "host \<Rightarrow> bool" where
  "idle h \<longleftrightarrow>
     store_ok (events h) \<and> processing_flag (events h) = 0 \<and>
     count (processing (events h)) = 0 \<and>
     accepted h = map request_of (processed h @ pending (available (events h)))"

section \<open>The doubling loop and the resize\<close>

lemma unbounded_doubling_ge: "c \<le> unbounded_doubling c r"
proof (induction c r rule: unbounded_doubling.induct)
  case (1 c r)
  show ?case
    by (subst unbounded_doubling.simps) (use 1 in auto)
qed

lemma unbounded_doubling_reaches: "0 < c \<Longrightarrow> r \<le> unbounded_doubling c r"
proof (induction c r rule: unbounded_doubling.induct)
  case (1 c r)
  show ?case
    by (subst unbounded_doubling.simps) (use 1 in auto)
qed

lemma unat_SIZE_MAX: "unat SIZE_MAX = 2 ^ 64 - 1"
  by (simp add: SIZE_MAX_def unsigned_minus_1_eq_mask mask_eq_exp_minus_1)

lemma size_t_div_less:
  "d \<noteq> 0 \<Longrightarrow> (SIZE_MAX div d < (nc::size_t)) = (unat SIZE_MAX < unat nc * unat d)"
  by (metis div_less_iff_less_mult unat_div_distrib unat_gt_0 word_less_iff_unsigned)

lemma unat_twice: "unat (es::size_t) < 2 ^ 63 \<Longrightarrow> unat (2 * es) = 2 * unat es"
  by (simp add: unat_word_ariths)

lemma unat_doubled: "2 * unat (nc::size_t) < 2 ^ 64 \<Longrightarrow> unat (nc * 2) = 2 * unat nc"
  by (simp add: unat_word_ariths)

lemma resize_loop_char:
  assumes e: "0 < unat es" "unat es < 2 ^ 63"
  shows "nc \<noteq> 0 \<Longrightarrow>
    Memory_Profiler_Queue_resize_loop es req nc =
      (if unat nc < unat req \<and> unat SIZE_MAX < unbounded_doubling (unat nc) (unat req) * unat es
       then Some Would_Overflow
       else Some (Grown (of_nat (unbounded_doubling (unat nc) (unat req)))))"
proof (induction "unat req - unat nc" arbitrary: nc rule: less_induct)
  case less
  have es2: "2 * es \<noteq> 0" using e unat_twice[of es] by (metis mult_eq_0_iff unat_0 zero_neq_numeral less_numeral_extra(3))
  have c0: "0 < unat nc" using less.prems by (simp add: unat_gt_0)
  show ?case
  proof (cases "nc < req")
    case False
    then have "unat req \<le> unat nc" by (simp add: word_less_nat_alt)
    then show ?thesis using False
      by (subst Memory_Profiler_Queue_resize_loop.simps, subst unbounded_doubling.simps) simp
  next
    case True
    then have lt: "unat nc < unat req" by (simp add: word_less_nat_alt)
    have T: "unbounded_doubling (unat nc) (unat req) = unbounded_doubling (2 * unat nc) (unat req)"
      using lt c0 by (subst unbounded_doubling.simps) simp
    show ?thesis
    proof (cases "SIZE_MAX div (2 * es) < nc")
      case over: True
      then have "unat SIZE_MAX < unat nc * (2 * unat es)"
        using es2 e by (simp add: size_t_div_less unat_twice)
      moreover have "2 * unat nc \<le> unbounded_doubling (2 * unat nc) (unat req)"
        by (rule unbounded_doubling_ge)
      ultimately have "unat SIZE_MAX < unbounded_doubling (unat nc) (unat req) * unat es"
        unfolding T
        by (metis (no_types, lifting) less_le_trans mult.assoc mult.commute mult_le_mono1)
      then show ?thesis using True over es2 lt
        by (subst Memory_Profiler_Queue_resize_loop.simps) simp
    next
      case fits: False
      then have le: "unat nc * (2 * unat es) \<le> unat SIZE_MAX"
        using es2 e by (simp add: size_t_div_less unat_twice)
      have "unat nc * 1 \<le> unat nc * unat es" using e by (intro mult_le_mono2) simp
      then have "2 * unat nc \<le> unat nc * (2 * unat es)" by simp
      with le have "2 * unat nc \<le> 2 ^ 64 - 1" unfolding unat_SIZE_MAX by linarith
      then have "2 * unat nc < 2 ^ 64" by simp
      then have dbl: "unat (nc * 2) = 2 * unat nc" by (rule unat_doubled)
      then have nz: "nc * 2 \<noteq> 0" using c0 by (metis mult_eq_0_iff unat_0 zero_neq_numeral less_numeral_extra(3))
      have "unat req - unat (nc * 2) < unat req - unat nc" using dbl lt c0 by simp
      from less.hyps[OF this nz]
      have IH: "Memory_Profiler_Queue_resize_loop es req (nc * 2) =
        (if 2 * unat nc < unat req \<and> unat SIZE_MAX < unbounded_doubling (2 * unat nc) (unat req) * unat es
         then Some Would_Overflow
         else Some (Grown (of_nat (unbounded_doubling (2 * unat nc) (unat req)))))"
        by (simp add: dbl)
      have stop: "\<not> 2 * unat nc < unat req \<Longrightarrow> unbounded_doubling (2 * unat nc) (unat req) = 2 * unat nc"
        by (subst unbounded_doubling.simps) simp
      have "Memory_Profiler_Queue_resize_loop es req nc = Memory_Profiler_Queue_resize_loop es req (nc * 2)"
        using True fits es2 by (subst Memory_Profiler_Queue_resize_loop.simps) simp
      also have "\<dots> = (if unat nc < unat req \<and> unat SIZE_MAX < unbounded_doubling (unat nc) (unat req) * unat es
         then Some Would_Overflow
         else Some (Grown (of_nat (unbounded_doubling (unat nc) (unat req)))))"
        unfolding IH T using lt le stop by (auto simp: mult.assoc mult.commute mult.left_commute)
      finally show ?thesis .
    qed
  qed
qed


lemma unbounded_doubling_mono: "r \<le> r' \<Longrightarrow> unbounded_doubling c r \<le> unbounded_doubling c r'"
proof (induction c r arbitrary: r' rule: unbounded_doubling.induct)
  case (1 c r)
  show ?case
  proof (cases "c = 0 \<or> r \<le> c")
    case True
    then have "unbounded_doubling c r = c" by (subst unbounded_doubling.simps) simp
    then show ?thesis by (simp add: unbounded_doubling_ge)
  next
    case False
    then have "\<not> (c = 0 \<or> r' \<le> c)" using 1(2) by auto
    then have "unbounded_doubling c r' = unbounded_doubling (2 * c) r'"
      by (subst unbounded_doubling.simps) simp
    moreover have "unbounded_doubling c r = unbounded_doubling (2 * c) r"
      using False by (subst unbounded_doubling.simps) simp
    ultimately show ?thesis using 1(1)[OF False 1(2)] by simp
  qed
qed

lemma unbounded_doubling_stable:
  "r \<le> r' \<Longrightarrow> r' \<le> unbounded_doubling c r \<Longrightarrow> unbounded_doubling c r' = unbounded_doubling c r"
proof (induction c r arbitrary: r' rule: unbounded_doubling.induct)
  case (1 c r)
  show ?case
  proof (cases "c = 0 \<or> r \<le> c")
    case True
    then have "unbounded_doubling c r = c" by (subst unbounded_doubling.simps) simp
    then show ?thesis using 1(3) by (subst unbounded_doubling.simps) simp
  next
    case False
    then have "\<not> (c = 0 \<or> r' \<le> c)" using 1(2) by auto
    then have a: "unbounded_doubling c r' = unbounded_doubling (2 * c) r'"
      by (subst unbounded_doubling.simps) simp
    have b: "unbounded_doubling c r = unbounded_doubling (2 * c) r"
      using False by (subst unbounded_doubling.simps) simp
    show ?thesis using 1(1)[OF False 1(2)] 1(3) a b by simp
  qed
qed

lemma unbounded_doubling_resume:
  "r \<le> r' \<Longrightarrow> unbounded_doubling (unbounded_doubling c r) r' = unbounded_doubling c r'"
proof (induction c r arbitrary: r' rule: unbounded_doubling.induct)
  case (1 c r)
  show ?case
  proof (cases "c = 0 \<or> r \<le> c")
    case True
    then have "unbounded_doubling c r = c" by (subst unbounded_doubling.simps) simp
    then show ?thesis by simp
  next
    case False
    then have "\<not> (c = 0 \<or> r' \<le> c)" using 1(2) by auto
    then have a: "unbounded_doubling c r' = unbounded_doubling (2 * c) r'"
      by (subst unbounded_doubling.simps) simp
    have b: "unbounded_doubling c r = unbounded_doubling (2 * c) r"
      using False by (subst unbounded_doubling.simps) simp
    show ?thesis using 1(1)[OF False 1(2)] a b by simp
  qed
qed

lemma unbounded_doubling_power: "\<exists>k. unbounded_doubling c r = c * 2 ^ k"
proof (induction c r rule: unbounded_doubling.induct)
  case (1 c r)
  show ?case
  proof (cases "c = 0 \<or> r \<le> c")
    case True
    then have "unbounded_doubling c r = c * 2 ^ 0" by (subst unbounded_doubling.simps) simp
    then show ?thesis by blast
  next
    case False
    then obtain k where "unbounded_doubling (2 * c) r = 2 * c * 2 ^ k" using 1 by blast
    then have "unbounded_doubling c r = c * 2 ^ Suc k"
      using False by (subst unbounded_doubling.simps) simp
    then show ?thesis by blast
  qed
qed

lemma resize_char:
  assumes e: "0 < unat (element_size q)" "unat (element_size q) < 2 ^ 63"
  shows "Memory_Profiler_Queue_resize realloc q req =
    Some (if req \<le> capacity q then (0, q)
          else if unat SIZE_MAX < unbounded_doubling (first_capacity q) (unat req) * unat (element_size q)
          then (- 1, q)
          else (case realloc (of_nat (unbounded_doubling (first_capacity q) (unat req)) * element_size q) of
                  None \<Rightarrow> (- 1, q)
                | Some fresh \<Rightarrow>
                    (1, q\<lparr>base := take (unbounded_doubling (first_capacity q) (unat req)) (base q)
                                   @ map fresh [length (base q)..<unbounded_doubling (first_capacity q) (unat req)],
                           capacity := of_nat (unbounded_doubling (first_capacity q) (unat req))\<rparr>)))"
proof (cases "req \<le> capacity q")
  case True
  then show ?thesis by (simp add: Memory_Profiler_Queue_resize_def)
next
  case False
  define nc where "nc = (if capacity q = 0 then MEMORY_PROFILER_QUEUE_DEFAULT_COUNT else capacity q)"
  define T where "T = unbounded_doubling (unat nc) (unat req)"
  have nc0: "nc \<noteq> 0" by (simp add: nc_def MEMORY_PROFILER_QUEUE_DEFAULT_COUNT_def)
  have fc: "first_capacity q = unat nc" by (simp add: first_capacity_def nc_def)
  have es0: "element_size q \<noteq> 0" using e(1) by (simp add: unat_gt_0)
  note loop = resize_loop_char[OF e nc0, of req, folded T_def]
  show ?thesis
  proof (cases "unat SIZE_MAX < T * unat (element_size q)")
    case over: True
    show ?thesis
    proof (cases "unat nc < unat req")
      case True
      then show ?thesis using False over loop
        by (simp add: Memory_Profiler_Queue_resize_def fc nc_def[symmetric] T_def[symmetric])
    next
      case stop: False
      then have T: "T = unat nc" unfolding T_def by (subst unbounded_doubling.simps) simp
      have "SIZE_MAX div element_size q < nc" using over es0 by (simp add: size_t_div_less T)
      then show ?thesis using False over loop stop es0
        by (simp add: Memory_Profiler_Queue_resize_def fc nc_def[symmetric] T_def[symmetric] T)
    qed
  next
    case fits: False
    have "T * 1 \<le> T * unat (element_size q)" using e(1) by (intro mult_le_mono2) simp
    moreover have "T * unat (element_size q) \<le> 2 ^ 64 - 1" using fits unfolding unat_SIZE_MAX by simp
    ultimately have "T \<le> 2 ^ 64 - 1" by linarith
    then have Tlt: "T < 2 ^ 64" by simp
    then have uT: "unat (of_nat T :: size_t) = T" by (simp add: unat_of_nat)
    have "\<not> SIZE_MAX div element_size q < of_nat T" using fits es0 by (simp add: size_t_div_less uT)
    then show ?thesis using False fits loop es0
      by (simp add: Memory_Profiler_Queue_resize_def fc nc_def[symmetric] T_def[symmetric] uT split: option.split)
  qed
qed

lemma first_capacity_power:
  assumes "queue_ok q"
  shows "\<exists>k. unbounded_doubling (first_capacity q) r = 128 * 2 ^ k"
proof -
  obtain j where j: "first_capacity q = 128 * 2 ^ j"
  proof (cases "capacity q = 0")
    case True
    then have "first_capacity q = 128 * 2 ^ 0"
      by (simp add: first_capacity_def MEMORY_PROFILER_QUEUE_DEFAULT_COUNT_def)
    then show ?thesis using that by blast
  next
    case False
    then show ?thesis using assms that by (auto simp: first_capacity_def queue_ok_def)
  qed
  obtain k where "unbounded_doubling (first_capacity q) r = first_capacity q * 2 ^ k"
    using unbounded_doubling_power by blast
  then have "unbounded_doubling (first_capacity q) r = 128 * 2 ^ (j + k)"
    by (simp add: j power_add)
  then show ?thesis by blast
qed

lemma first_capacity_ge: "unat (capacity q) \<le> first_capacity q"
  by (simp add: first_capacity_def)

lemma first_capacity_pos: "0 < first_capacity q"
  by (simp add: first_capacity_def MEMORY_PROFILER_QUEUE_DEFAULT_COUNT_def unat_gt_0)

lemma resize_ok:
  assumes ok: "queue_ok q" and r: "Memory_Profiler_Queue_resize realloc q req = Some (ret, q')"
  shows "queue_ok q'" and "capacity q \<le> capacity q'" and "count q' = count q"
    and "element_size q' = element_size q"
    and "take (unat (capacity q)) (base q') = base q"
    and "ret = - 1 \<Longrightarrow> q' = q"
    and "ret \<noteq> - 1 \<Longrightarrow> req \<le> capacity q'"
    and "ret = 0 \<or> ret = 1 \<or> ret = - 1"
    and "capacity q' = capacity q \<or>
         unat (capacity q') = unbounded_doubling (first_capacity q) (unat req)"
proof -
  define T where "T = unbounded_doubling (first_capacity q) (unat req)"
  have e: "0 < unat (element_size q)" "unat (element_size q) < 2 ^ 63"
    using ok by (simp_all add: queue_ok_def)
  note char = resize_char[OF e, of realloc req, folded T_def]
  have len: "length (base q) = unat (capacity q)" using ok by (simp add: queue_ok_def)
  have all: "queue_ok q' \<and> capacity q \<le> capacity q' \<and> count q' = count q
    \<and> element_size q' = element_size q
    \<and> take (unat (capacity q)) (base q') = base q
    \<and> (ret = - 1 \<longrightarrow> q' = q) \<and> (ret \<noteq> - 1 \<longrightarrow> req \<le> capacity q')
    \<and> (ret = 0 \<or> ret = 1 \<or> ret = - 1)
    \<and> (capacity q' = capacity q \<or> unat (capacity q') = T)"
  proof (cases "ret = 1")
    case False
    then have "q' = q" "ret = 0 \<or> ret = - 1" "ret = 0 \<longrightarrow> req \<le> capacity q"
      using r char by (auto split: if_splits option.splits)
    then show ?thesis using ok len False by auto
  next
    case True
    then obtain fresh where big: "\<not> req \<le> capacity q" and fits: "\<not> unat SIZE_MAX < T * unat (element_size q)"
      and q': "q' = q\<lparr>base := take T (base q) @ map fresh [length (base q)..<T], capacity := of_nat T\<rparr>"
      using r char by (auto split: if_splits option.splits)
    have "T * 1 \<le> T * unat (element_size q)" using e(1) by (intro mult_le_mono2) simp
    moreover have "T * unat (element_size q) \<le> 2 ^ 64 - 1" using fits unfolding unat_SIZE_MAX by simp
    ultimately have "T \<le> 2 ^ 64 - 1" by linarith
    then have uT: "unat (of_nat T :: size_t) = T" by (simp add: unat_of_nat)
    have capT: "unat (capacity q) \<le> T"
      unfolding T_def using first_capacity_ge unbounded_doubling_ge by (rule order_trans)
    have reqT: "unat req \<le> T"
      unfolding T_def using first_capacity_pos by (rule unbounded_doubling_reaches)
    obtain k where k: "T = 128 * 2 ^ k" unfolding T_def using first_capacity_power[OF ok] by blast
    have "count q \<le> capacity q" using ok by (simp add: queue_ok_def)
    then have cnt: "unat (count q) \<le> T" using capT by (simp add: word_le_nat_alt)
    have pw: "\<exists>k. unat (of_nat T :: size_t) = 128 * 2 ^ k" unfolding uT using k by blast
    have "length (take T (base q) @ map fresh [length (base q)..<T]) = T"
      using capT by (simp add: len)
    then have "queue_ok q'"
      using ok cnt pw unfolding queue_ok_def q' by (simp add: uT word_le_nat_alt)
    then show ?thesis using True capT reqT len by (simp add: q' uT word_le_nat_alt)
  qed
  show "queue_ok q'" and "capacity q \<le> capacity q'" and "count q' = count q"
    and "element_size q' = element_size q"
    and "take (unat (capacity q)) (base q') = base q"
    and "ret = - 1 \<Longrightarrow> q' = q"
    and "ret \<noteq> - 1 \<Longrightarrow> req \<le> capacity q'"
    and "ret = 0 \<or> ret = 1 \<or> ret = - 1"
    and "capacity q' = capacity q \<or>
         unat (capacity q') = unbounded_doubling (first_capacity q) (unat req)"
    using all by (simp_all add: T_def)
qed

lemma resize_returns:
  assumes "queue_ok q"
  shows "\<exists>ret q'. Memory_Profiler_Queue_resize realloc q req = Some (ret, q')"
  using assms resize_char[of q realloc req] by (simp add: queue_ok_def)

lemma capacity_below_max:
  assumes "queue_ok q"
  shows "unat (capacity q) < 2 ^ 64 - 1"
proof (cases "capacity q = 0")
  case True
  then show ?thesis by simp
next
  case False
  then obtain k where k: "unat (capacity q) = 128 * 2 ^ k" using assms by (auto simp: queue_ok_def)
  have "unat (capacity q) < 2 ^ 64" using unsigned_less[of "capacity q"] by simp
  moreover have "even (unat (capacity q))" by (simp add: k)
  moreover have "odd ((2::nat) ^ 64 - 1)" by simp
  ultimately show ?thesis by (metis less_Suc_eq Suc_pred' zero_less_numeral zero_less_power)
qed

lemma count_succ:
  assumes "queue_ok q"
  shows "unat (count q + 1) = unat (count q) + 1"
proof -
  have "unat (count q) \<le> unat (capacity q)" using assms by (simp add: queue_ok_def word_le_nat_alt)
  with capacity_below_max[OF assms] have "unat (count q) + 1 < 2 ^ 64" by simp
  then show ?thesis by (simp add: unat_word_ariths)
qed

lemma push_ok:
  assumes ok: "queue_ok q" and p: "Memory_Profiler_Queue_push realloc q = Some (ptr, q')"
  shows "queue_ok q'" and "capacity q \<le> capacity q'"
    and "element_size q' = element_size q"
    and "take (unat (capacity q)) (base q') = base q"
    and "ptr = None \<Longrightarrow> q' = q"
    and "ptr \<noteq> None \<Longrightarrow> ptr = Some (unat (count q)) \<and> unat (count q') = unat (count q) + 1"
    and "capacity q' = capacity q \<or>
         unat (capacity q') = unbounded_doubling (first_capacity q) (unat (count q) + 1)"
proof -
  note succ = count_succ[OF ok]
  have all: "queue_ok q' \<and> capacity q \<le> capacity q' \<and> element_size q' = element_size q
    \<and> take (unat (capacity q)) (base q') = base q \<and> (ptr = None \<longrightarrow> q' = q)
    \<and> (ptr \<noteq> None \<longrightarrow> ptr = Some (unat (count q)) \<and> unat (count q') = unat (count q) + 1)
    \<and> (capacity q' = capacity q \<or>
         unat (capacity q') = unbounded_doubling (first_capacity q) (unat (count q) + 1))"
  proof (cases "capacity q < count q + 1")
    case False
    then have q': "q' = q\<lparr>count := count q + 1\<rparr>" and ptr: "ptr = Some (unat (count q))"
      using p by (auto simp: Memory_Profiler_Queue_push_def Let_def)
    have "queue_ok q'" using ok False unfolding q' queue_ok_def by (simp add: not_less)
    then show ?thesis using ok by (simp add: q' ptr succ queue_ok_def)
  next
    case True
    then obtain ret q1 where r: "Memory_Profiler_Queue_resize realloc q (count q + 1) = Some (ret, q1)"
      and rest: "(if ret = - 1 then Some (None, q1) else Some (Some (unat (count q1)), q1\<lparr>count := count q1 + 1\<rparr>)) = Some (ptr, q')"
      using p by (auto simp: Memory_Profiler_Queue_push_def Let_def split: option.splits)
    note R = resize_ok[OF ok r]
    show ?thesis
    proof (cases "ret = - 1")
      case True
      then show ?thesis using rest R ok by (auto simp: queue_ok_def)
    next
      case False
      then have q': "q' = q1\<lparr>count := count q + 1\<rparr>" and ptr: "ptr = Some (unat (count q))"
        using rest R(3) by auto
      have "count q + 1 \<le> capacity q1" using R(7)[OF False] .
      then have "queue_ok q'" using R(1) unfolding q' queue_ok_def by simp
      then show ?thesis using R by (simp add: q' ptr succ)
    qed
  qed
  show "queue_ok q'" and "capacity q \<le> capacity q'"
    and "element_size q' = element_size q"
    and "take (unat (capacity q)) (base q') = base q"
    and "ptr = None \<Longrightarrow> q' = q"
    and "ptr \<noteq> None \<Longrightarrow> ptr = Some (unat (count q)) \<and> unat (count q') = unat (count q) + 1"
    and "capacity q' = capacity q \<or>
         unat (capacity q') = unbounded_doubling (first_capacity q) (unat (count q) + 1)"
    using all by simp_all
qed

lemma push_returns:
  assumes "queue_ok q"
  shows "\<exists>ptr q'. Memory_Profiler_Queue_push realloc q = Some (ptr, q')"
  using resize_returns[OF assms, of realloc "count q + 1"]
  by (auto simp: Memory_Profiler_Queue_push_def Let_def)

lemma push_room:
  assumes "count q + 1 \<le> capacity q"
  shows "Memory_Profiler_Queue_push realloc q =
    Some (Some (unat (count q)), q\<lparr>count := count q + 1\<rparr>)"
proof -
  have "\<not> capacity q < count q + 1" using assms by (simp add: not_less)
  then show ?thesis by (simp add: Memory_Profiler_Queue_push_def Let_def)
qed

lemma push_grows:
  assumes ok: "queue_ok q" and full: "capacity q < count q + 1"
    and fits: "unbounded_doubling (first_capacity q) (unat (count q) + 1) * unat (element_size q) \<le> unat SIZE_MAX"
    and alloc: "realloc (of_nat (unbounded_doubling (first_capacity q) (unat (count q) + 1)) * element_size q) = Some fresh"
  shows "Memory_Profiler_Queue_push realloc q =
    Some (Some (unat (count q)),
          q\<lparr>base := base q @ map fresh [unat (capacity q)..<unbounded_doubling (first_capacity q) (unat (count q) + 1)],
            capacity := of_nat (unbounded_doubling (first_capacity q) (unat (count q) + 1)),
            count := count q + 1\<rparr>)"
proof -
  define T where "T = unbounded_doubling (first_capacity q) (unat (count q) + 1)"
  have e: "0 < unat (element_size q)" "unat (element_size q) < 2 ^ 63"
    using ok by (simp_all add: queue_ok_def)
  have len: "length (base q) = unat (capacity q)" using ok by (simp add: queue_ok_def)
  have capT: "unat (capacity q) \<le> T"
    unfolding T_def using first_capacity_ge unbounded_doubling_ge by (rule order_trans)
  have nle: "\<not> count q + 1 \<le> capacity q" using full by (simp add: not_le)
  have nov: "\<not> unat SIZE_MAX < T * unat (element_size q)" using fits by (simp add: T_def not_less)
  have al: "realloc (of_nat T * element_size q) = Some fresh" using alloc by (simp add: T_def)
  have "Memory_Profiler_Queue_resize realloc q (count q + 1) =
    Some (1, q\<lparr>base := take T (base q) @ map fresh [length (base q)..<T], capacity := of_nat T\<rparr>)"
    using resize_char[OF e, of realloc "count q + 1", unfolded count_succ[OF ok], folded T_def] nle nov al
    by simp
  then show ?thesis using full capT unfolding T_def
    by (simp add: Memory_Profiler_Queue_push_def Let_def len)
qed

lemma doubled_fits_word:
  assumes "0 < e" "T * e \<le> unat SIZE_MAX"
  shows "unat (of_nat T :: size_t) = T"
proof -
  have "T * 1 \<le> T * e" using assms(1) by (intro mult_le_mono2) simp
  moreover have "T * e \<le> 2 ^ 64 - 1" using assms(2) unfolding unat_SIZE_MAX by simp
  ultimately have "T \<le> 2 ^ 64 - 1" by linarith
  then show ?thesis by (simp add: unat_of_nat)
qed

lemma store_record_holds:
  assumes h: "holds q pre" and alloc: "\<forall>bytes. realloc bytes \<noteq> None"
    and fits: "unbounded_doubling 128 (length pre + 1) * unat (element_size q) \<le> unat SIZE_MAX"
  shows "\<exists>q'. store_record realloc v q = Some q' \<and> holds q' (pre @ [v]) \<and> element_size q' = element_size q"
proof -
  let ?m = "length pre"
  have ok: "queue_ok q" and cnt: "unat (count q) = ?m" and pre: "take ?m (base q) = pre"
    and cap: "unat (capacity q) = (if pre = [] then 0 else unbounded_doubling 128 ?m)"
    using h by (simp_all add: holds_def)
  have len: "length (base q) = unat (capacity q)" using ok by (simp add: queue_ok_def)
  have e: "0 < unat (element_size q)" using ok by (simp add: queue_ok_def)
  note succ = count_succ[OF ok]
  show ?thesis
  proof (cases "count q + 1 \<le> capacity q")
    case True
    then have m1: "?m + 1 \<le> unat (capacity q)" by (simp add: word_le_nat_alt succ cnt)
    then have ne: "pre \<noteq> []" using cap by auto
    have st: "unbounded_doubling 128 (?m + 1) = unbounded_doubling 128 ?m"
      using m1 cap ne by (intro unbounded_doubling_stable) simp_all
    let ?q' = "q\<lparr>count := count q + 1, base := (base q)[?m := v]\<rparr>"
    have "store_record realloc v q = Some ?q'"
      using m1 by (simp add: store_record_def push_room[OF True] element_write_def cnt len)
    moreover have "take (?m + 1) ((base q)[?m := v]) = pre @ [v]"
      using m1 pre len by (simp add: take_Suc_conv_app_nth)
    then have "holds ?q' (pre @ [v])"
      using ok True cap ne st unfolding holds_def queue_ok_def by (simp add: succ cnt)
    ultimately show ?thesis by simp
  next
    case False
    then have full: "capacity q < count q + 1" by simp
    have "unat (count q) \<le> unat (capacity q)" using ok by (simp add: queue_ok_def word_le_nat_alt)
    moreover have "unat (capacity q) < ?m + 1" using full by (simp add: word_less_nat_alt succ cnt)
    ultimately have capm: "unat (capacity q) = ?m" using cnt by simp
    define T where "T = unbounded_doubling (first_capacity q) (unat (count q) + 1)"
    have T: "T = unbounded_doubling 128 (?m + 1)"
    proof (cases "pre = []")
      case True
      then have "capacity q = 0" using cap by (simp add: unat_eq_0)
      then show ?thesis
        by (simp add: T_def first_capacity_def MEMORY_PROFILER_QUEUE_DEFAULT_COUNT_def cnt)
    next
      case False
      then have "capacity q \<noteq> 0" using capm by (auto simp: unat_eq_0)
      then have "first_capacity q = unbounded_doubling 128 ?m"
        using cap False by (simp add: first_capacity_def)
      then show ?thesis by (simp add: T_def cnt unbounded_doubling_resume)
    qed
    have fitsT: "T * unat (element_size q) \<le> unat SIZE_MAX" using fits by (simp add: T)
    obtain fresh where fr: "realloc (of_nat T * element_size q) = Some fresh" using alloc by fastforce
    have uT: "unat (of_nat T :: size_t) = T" using e fitsT by (rule doubled_fits_word)
    have mT: "?m < T" using unbounded_doubling_reaches[of 128 "?m + 1"] by (simp add: T)
    let ?q1 = "q\<lparr>base := base q @ map fresh [unat (capacity q)..<T], capacity := of_nat T, count := count q + 1\<rparr>"
    have push: "Memory_Profiler_Queue_push realloc q = Some (Some (unat (count q)), ?q1)"
      using push_grows[OF ok full, of realloc fresh] fitsT fr by (simp add: T_def)
    have okq1: "queue_ok ?q1" using push_ok(1)[OF ok push] .
    let ?q' = "?q1\<lparr>base := (base ?q1)[?m := v]\<rparr>"
    have st: "store_record realloc v q = Some ?q'"
      using mT by (simp add: store_record_def push element_write_def cnt len capm)
    have "take (length (pre @ [v])) ((base ?q1)[?m := v]) = pre @ [v]"
      using mT pre len capm by (simp add: take_Suc_conv_app_nth)
    moreover have "unat (capacity ?q1) = unbounded_doubling 128 (length (pre @ [v]))"
      using uT by (simp add: T)
    moreover have "unat (count ?q1) = length (pre @ [v])" by (simp add: succ cnt)
    ultimately have "holds ?q' (pre @ [v])"
      using okq1 unfolding holds_def queue_ok_def by simp
    with st show ?thesis by simp
  qed
qed

lemma store_records_holds:
  assumes "holds q pre" and "\<forall>bytes. realloc bytes \<noteq> None"
    and "unbounded_doubling 128 (length pre + length vs) * unat (element_size q) \<le> unat SIZE_MAX"
  shows "\<exists>q'. store_records realloc vs q = Some q' \<and> holds q' (pre @ vs)"
  using assms
proof (induction vs arbitrary: q pre)
  case Nil
  then show ?case by simp
next
  case (Cons v vs)
  have "unbounded_doubling 128 (length pre + 1) \<le> unbounded_doubling 128 (length pre + length (v # vs))"
    by (rule unbounded_doubling_mono) simp
  then have "unbounded_doubling 128 (length pre + 1) * unat (element_size q) \<le> unat SIZE_MAX"
    using Cons.prems(3) by (meson le_trans mult_le_mono1)
  from store_record_holds[OF Cons.prems(1,2) this, of v]
  obtain q1 where q1: "store_record realloc v q = Some q1" "holds q1 (pre @ [v])"
    "element_size q1 = element_size q" by blast
  have "\<exists>q'. store_records realloc vs q1 = Some q' \<and> holds q' ((pre @ [v]) @ vs)"
    using Cons.prems(3) by (intro Cons.IH[OF q1(2) Cons.prems(2)]) (simp add: q1(3))
  then show ?case by (simp add: q1(1))
qed

lemma holds_retrieve:
  assumes "holds q vs" "i < length vs"
  shows "retrieve q i = Some (vs ! i)"
proof -
  have len: "length vs \<le> length (base q)"
    using assms(1) by (simp add: holds_def queue_ok_def word_le_nat_alt)
  have "take (length vs) (base q) ! i = base q ! i" using assms(2) by simp
  moreover have "take (length vs) (base q) = vs" using assms(1) by (simp add: holds_def)
  ultimately have "base q ! i = vs ! i" by simp
  moreover have "unat (count q) = length vs" using assms(1) by (simp add: holds_def)
  ultimately show ?thesis
    using assms(2) len by (simp add: retrieve_def Memory_Profiler_Queue_at_def element_read_def)
qed

lemma holds_initialize:
  "0 < unat esize \<Longrightarrow> unat esize < 2 ^ 63 \<Longrightarrow> holds (Memory_Profiler_Queue_initialize esize) []"
  by (simp add: holds_def queue_ok_def Memory_Profiler_Queue_initialize_def)

lemma unbounded_doubling_10000: "unbounded_doubling 128 10000 = 16384"
  by (simp add: unbounded_doubling.simps)

lemma queue_call_respects:
  assumes ok: "queue_ok q" and c: "queue_call c q = Some q'"
  shows "queue_ok q' \<and> call_respects c q q'"
proof (cases c)
  case (Push realloc)
  then obtain ptr where p: "Memory_Profiler_Queue_push realloc q = Some (ptr, q')"
    using c by auto
  note P = push_ok[OF ok p]
  have "capacity q' = capacity q \<or> (\<exists>k. unat (capacity q') = first_capacity q * 2 ^ k)"
    using P(7) unbounded_doubling_power[of "first_capacity q"] by metis
  then show ?thesis using P(1,2) Push by (auto simp: call_respects_def queue_ok_def)
next
  case (At i)
  then have "q' = q" using c by (auto split: option.splits)
  then show ?thesis using ok At by (auto simp: call_respects_def queue_ok_def)
next
  case Clear
  then have "q' = q\<lparr>count := 0\<rparr>" using c by (simp add: Memory_Profiler_Queue_clear_def)
  then show ?thesis using ok Clear by (auto simp: call_respects_def queue_ok_def)
next
  case (Resize realloc req)
  then obtain ret where r: "Memory_Profiler_Queue_resize realloc q req = Some (ret, q')"
    using c by auto
  note R = resize_ok[OF ok r]
  have "capacity q' = capacity q \<or> (\<exists>k. unat (capacity q') = first_capacity q * 2 ^ k)"
    using R(9) unbounded_doubling_power[of "first_capacity q"] by metis
  then show ?thesis using R(1,2) Resize by (auto simp: call_respects_def queue_ok_def)
next
  case Free
  then have "q' = Memory_Profiler_Queue_free q" using c by simp
  then show ?thesis using ok Free
    by (auto simp: call_respects_def queue_ok_def Memory_Profiler_Queue_free_def Let_def)
qed

lemma queue_calls_respect:
  assumes "queue_ok q" and "queue_calls cs q = Some qs"
  shows "length qs = length cs \<and> (\<forall>i<length cs. call_respects (cs ! i) ((q # qs) ! i) (qs ! i))"
  using assms
proof (induction cs arbitrary: q qs)
  case Nil
  then show ?case by simp
next
  case (Cons c cs)
  from Cons.prems(2) obtain q1 qs1 where q1: "queue_call c q = Some q1"
    and qs1: "queue_calls cs q1 = Some qs1" and qs: "qs = q1 # qs1"
    by (auto split: option.splits)
  from queue_call_respects[OF Cons.prems(1) q1]
  have ok1: "queue_ok q1" and r1: "call_respects c q q1" by simp_all
  from Cons.IH[OF ok1 qs1]
  have len: "length qs1 = length cs"
    and rest: "\<And>i. i < length cs \<Longrightarrow> call_respects (cs ! i) ((q1 # qs1) ! i) (qs1 ! i)"
    by simp_all
  have "call_respects ((c # cs) ! i) ((q # qs) ! i) (qs ! i)" if "i < length (c # cs)" for i
  proof (cases i)
    case 0
    then show ?thesis using r1 by (simp add: qs)
  next
    case (Suc j)
    then show ?thesis using rest[of j] that by (simp add: qs)
  qed
  then show ?case using len by (simp add: qs)
qed

lemma queue_ok_initialize:
  "0 < unat esize \<Longrightarrow> unat esize < 2 ^ 63 \<Longrightarrow> queue_ok (Memory_Profiler_Queue_initialize esize)"
  by (simp add: queue_ok_def Memory_Profiler_Queue_initialize_def)

section \<open>The walks of the collector\<close>

lemma drop_pending:
  assumes "i < unat (count q)" "i < length (base q)"
  shows "drop i (pending q) = base q ! i # drop (i + 1) (pending q)"
proof -
  have "i < length (pending q)" using assms by (simp add: pending_def)
  then have "drop i (pending q) = pending q ! i # drop (Suc i) (pending q)"
    by (simp add: Cons_nth_drop_Suc)
  moreover have "pending q ! i = base q ! i" using assms by (simp add: pending_def)
  ultimately show ?thesis by simp
qed

lemma mark_queue_from_char:
  assumes len: "unat (count q) \<le> length (base q)"
  shows "i \<le> unat (count q) \<Longrightarrow>
    Memory_Profiler_Events_mark_queue_from q skip i marked =
      Some (marked @ concat (map references_of (filter (walked skip) (drop i (pending q)))))"
proof (induction "unat (count q) - i" arbitrary: i marked)
  case 0
  then have "i = unat (count q)" by simp
  then show ?case
    by (subst Memory_Profiler_Events_mark_queue_from.simps) (simp add: pending_def)
next
  case (Suc d)
  then have lt: "i < unat (count q)" and d: "d = unat (count q) - (i + 1)" by simp_all
  have inb: "i < length (base q)" using lt len by simp
  have dr: "drop i (pending q) = base q ! i # drop (i + 1) (pending q)"
    using lt inb by (rule drop_pending)
  have IH: "\<And>m. Memory_Profiler_Events_mark_queue_from q skip (Suc i) m =
      Some (m @ concat (map references_of (filter (walked skip) (drop (Suc i) (pending q)))))"
    using Suc.hyps(1)[OF d] lt by simp
  show ?case
    by (subst Memory_Profiler_Events_mark_queue_from.simps)
      (simp add: lt inb Memory_Profiler_Queue_at_def element_read_def IH dr walked_def
        sentinel_def references_of_def Let_def)
qed

lemma mark_queue_char:
  assumes "unat (count q) \<le> length (base q)"
  shows "Memory_Profiler_Events_mark_queue q skip =
      Some (concat (map references_of (filter (walked skip) (pending q))))"
  using mark_queue_from_char[OF assms, of 0 skip "[]"]
  by (simp add: Memory_Profiler_Events_mark_queue_def)

lemma compact_queue_from_char:
  "unat (count q) \<le> length (base q) \<Longrightarrow> i \<le> unat (count q) \<Longrightarrow>
    Memory_Profiler_Events_compact_queue_from loc q skip i =
      Some (q\<lparr>base := take i (base q) @ map (moved loc skip) (drop i (pending q))
                        @ drop (unat (count q)) (base q)\<rparr>)"
proof (induction "unat (count q) - i" arbitrary: i q)
  case 0
  then have "i = unat (count q)" by simp
  then show ?case
    by (subst Memory_Profiler_Events_compact_queue_from.simps) (simp add: pending_def)
next
  case (Suc d)
  then have lt: "i < unat (count q)" by simp
  have inb: "i < length (base q)" using lt Suc.prems by simp
  let ?n = "unat (count q)"
  let ?B = "base q"
  define q1 where "q1 = q\<lparr>base := ?B[i := moved loc skip (?B ! i)]\<rparr>"
  have c1: "count q1 = count q" and l1: "length (base q1) = length ?B" by (simp_all add: q1_def)
  have d: "d = unat (count q1) - (i + 1)" using Suc.hyps(2) by (simp add: c1)
  have IH: "Memory_Profiler_Events_compact_queue_from loc q1 skip (Suc i) =
      Some (q1\<lparr>base := take (Suc i) (base q1) @ map (moved loc skip) (drop (Suc i) (pending q1))
                        @ drop ?n (base q1)\<rparr>)"
    using Suc.hyps(1)[OF d] lt Suc.prems(1) by (simp add: c1 l1)
  have t1: "take (Suc i) (base q1) = take i ?B @ [moved loc skip (?B ! i)]"
    using inb by (simp add: q1_def take_Suc_conv_app_nth)
  have p1: "drop (Suc i) (pending q1) = drop (Suc i) (pending q)"
    by (simp add: pending_def q1_def drop_take)
  have dn: "drop ?n (base q1) = drop ?n ?B" using lt by (simp add: q1_def)
  have dr: "drop i (pending q) = ?B ! i # drop (Suc i) (pending q)"
    using drop_pending[OF lt inb] by simp
  have q1o: "\<And>X. q1\<lparr>base := X\<rparr> = q\<lparr>base := X\<rparr>" by (simp add: q1_def)
  have step: "Memory_Profiler_Events_compact_queue_from loc q skip i =
      Memory_Profiler_Events_compact_queue_from loc q1 skip (Suc i)"
  proof (cases "walked skip (?B ! i)")
    case True
    then show ?thesis
      by (subst Memory_Profiler_Events_compact_queue_from.simps)
        (auto simp: lt inb Memory_Profiler_Queue_at_def element_read_def q1_def moved_def
          relocated_def walked_def sentinel_def Let_def)
  next
    case False
    then have "q1 = q" by (simp add: q1_def moved_def)
    then show ?thesis using False
      by (subst Memory_Profiler_Events_compact_queue_from.simps)
        (auto simp: lt inb Memory_Profiler_Queue_at_def element_read_def walked_def sentinel_def)
  qed
  show ?case unfolding step IH by (simp add: t1 p1 dn dr q1o)
qed

lemma compact_queue_char:
  assumes "unat (count q) \<le> length (base q)"
  shows "Memory_Profiler_Events_compact_queue loc q skip =
      Some (q\<lparr>base := map (moved loc skip) (pending q) @ drop (unat (count q)) (base q)\<rparr>)"
  using compact_queue_from_char[OF assms, of 0 loc skip]
  by (simp add: Memory_Profiler_Events_compact_queue_def)

section \<open>Enqueue\<close>

lemma walked_0 [simp]: "walked 0 event"
  by (simp add: walked_def)

lemma walked_1 [simp]: "walked 1 event \<longleftrightarrow> \<not> sentinel event"
  by (simp add: walked_def)

lemma queue_ok_fits: "queue_ok q \<Longrightarrow> unat (count q) \<le> length (base q)"
  by (simp add: queue_ok_def word_le_nat_alt)

lemma push_pending:
  assumes ok: "queue_ok q" and p: "Memory_Profiler_Queue_push realloc q = Some (Some e, q')"
  shows "e = unat (count q)" and "e < length (base q')"
    and "unat (count q') = unat (count q) + 1"
    and "take (unat (count q)) (base q') = pending q" and "queue_ok q'"
proof -
  note P = push_ok[OF ok p]
  show e: "e = unat (count q)" and c: "unat (count q') = unat (count q) + 1" using P(6) by simp_all
  show "queue_ok q'" by (rule P(1))
  from queue_ok_fits[OF P(1)] c e show "e < length (base q')" by simp
  have "unat (count q) \<le> unat (capacity q)" using ok by (simp add: queue_ok_def word_le_nat_alt)
  then have "take (unat (count q)) (base q') = take (unat (count q)) (take (unat (capacity q)) (base q'))"
    by (simp add: min_def)
  then show "take (unat (count q)) (base q') = pending q" by (simp add: P(4) pending_def)
qed

lemma enqueue_dropped:
  assumes ok: "store_ok (events h)"
    and p: "Memory_Profiler_Queue_push realloc (available (events h)) = Some (None, q')"
  shows "Memory_Profiler_Events_enqueue realloc ty c k ob h = Some (0, h)"
proof -
  have "queue_ok (available (events h))" using ok by (simp add: store_ok_def)
  from push_ok(5)[OF this p] have "q' = available (events h)" by simp
  then show ?thesis using p by (simp add: Memory_Profiler_Events_enqueue_def)
qed

lemma enqueue_stored:
  assumes ok: "store_ok (events h)"
    and p: "Memory_Profiler_Queue_push realloc (available (events h)) = Some (Some e, q')"
  shows "Memory_Profiler_Events_enqueue realloc ty c k ob h =
    Some (1, h\<lparr>events := (events h)\<lparr>available := q'\<lparr>base := (base q')[e := stored (base q' ! e) ty c k ob]\<rparr>\<rparr>,
               obj_writes := obj_writes h @ [(self (events h), c), (self (events h), k), (self (events h), ob)],
               job_triggers := job_triggers h + 1\<rparr>)"
proof -
  have "queue_ok (available (events h))" using ok by (simp add: store_ok_def)
  note P = push_pending[OF this p]
  show ?thesis
    using p P(2)
    by (simp add: Memory_Profiler_Events_enqueue_def element_read_def element_write_def
        RB_OBJ_WRITE_def stored_def Let_def)
qed

lemma enqueue_cases:
  assumes ok: "store_ok (events h)"
  obtains (dropped) "Memory_Profiler_Events_enqueue realloc ty c k ob h = Some (0, h)"
      and "\<exists>q'. Memory_Profiler_Queue_push realloc (available (events h)) = Some (None, q')"
    | (kept) h' slot where "Memory_Profiler_Events_enqueue realloc ty c k ob h = Some (1, h')"
      and "store_ok (events h')"
      and "pending (available (events h')) = pending (available (events h)) @ [slot]"
      and "enqueue_calls h' = enqueue_calls h"
      and "type slot = ty" "capture slot = c" "klass slot = k" "object slot = ob"
      and "processing (events h') = processing (events h)"
      and "processing_flag (events h') = processing_flag (events h)"
      and "self (events h') = self (events h)"
      and "processed h' = processed h" and "warnings h' = warnings h"
      and "obj_writes h' = obj_writes h @ [(self (events h), c), (self (events h), k), (self (events h), ob)]"
      and "job_triggers h' = job_triggers h + 1"
proof -
  have qa: "queue_ok (available (events h))" and qp: "queue_ok (processing (events h))"
    using ok by (simp_all add: store_ok_def)
  obtain ptr q' where p: "Memory_Profiler_Queue_push realloc (available (events h)) = Some (ptr, q')"
    using push_returns[OF qa] by blast
  show ?thesis
  proof (cases ptr)
    case None
    then show ?thesis using dropped enqueue_dropped[OF ok] p by blast
  next
    case (Some e)
    note p' = p[unfolded Some]
    note P = push_pending[OF qa p']
    let ?slot = "stored (base q' ! e) ty c k ob"
    let ?q = "q'\<lparr>base := (base q')[e := ?slot]\<rparr>"
    let ?h' = "h\<lparr>events := (events h)\<lparr>available := ?q\<rparr>,
               obj_writes := obj_writes h @ [(self (events h), c), (self (events h), k), (self (events h), ob)],
               job_triggers := job_triggers h + 1\<rparr>"
    have okq: "queue_ok ?q" using P(5) by (simp add: queue_ok_def)
    have "take (unat (count q')) ((base q')[e := ?slot]) = take e (base q') @ [?slot]"
      using P(1,2,3) by (simp add: take_Suc_conv_app_nth)
    then have pend: "pending ?q = pending (available (events h)) @ [?slot]"
      using P(1,4) by (simp add: pending_def)
    show ?thesis
      by (rule kept[of ?h' ?slot])
        (use enqueue_stored[OF ok p'] okq qp pend in \<open>simp_all add: store_ok_def stored_def\<close>)
  qed
qed

section \<open>Drain\<close>

lemma process_queue_draining:
  "processing_flag (events h) \<noteq> 0 \<Longrightarrow> Memory_Profiler_Events_process_queue conducts h = Some h"
  by (simp add: Memory_Profiler_Events_process_queue.simps)

lemma process_all_draining:
  "processing_flag (events h) \<noteq> 0 \<Longrightarrow>
    Memory_Profiler_Events_process_all conducts h = Some (Inl (RuntimeError ''Recursive call detected!''))"
  by (simp add: Memory_Profiler_Events_process_all.simps)

lemma accepted_of_simps [simp]:
  "accepted_of [] = []"
  "accepted_of (made1 @ made2) = accepted_of made1 @ accepted_of made2"
  "accepted_of [(q, 1)] = [q]"
  "accepted_of [(q, 0)] = []"
  by (simp_all add: accepted_of_def)

lemma only_enqueued_refl: "store_ok (events h) \<Longrightarrow> only_enqueued h h [] []"
  by (simp add: only_enqueued_def)

lemma only_enqueued_trans:
  "only_enqueued h h1 made1 new1 \<Longrightarrow> only_enqueued h1 h2 made2 new2 \<Longrightarrow>
    only_enqueued h h2 (made1 @ made2) (new1 @ new2)"
  by (simp add: only_enqueued_def)

lemma enqueue_call_only_enqueued:
  assumes "store_ok (events h)"
  shows "\<exists>r h' new. enqueue_call realloc ty c k ob h = Some h' \<and>
    only_enqueued h h' [((ty, c, k, ob), r)] new \<and>
    length (pending (available (events h'))) =
      length (pending (available (events h))) + (if r = 1 then 1 else 0)"
proof (rule enqueue_cases[OF assms, of realloc ty c k ob], goal_cases)
  case 1
  let ?h' = "h\<lparr>enqueue_calls := enqueue_calls h @ [((ty, c, k, ob), 0)]\<rparr>"
  have "enqueue_call realloc ty c k ob h = Some ?h'" using 1(1) by (simp add: enqueue_call_def)
  moreover have "only_enqueued h ?h' [((ty, c, k, ob), 0)] []"
    using assms by (simp add: only_enqueued_def)
  ultimately show ?thesis by (intro exI[of _ 0] exI[of _ ?h'] exI[of _ "[]"]) simp
next
  case (2 h' slot)
  let ?h' = "h'\<lparr>enqueue_calls := enqueue_calls h' @ [((ty, c, k, ob), 1)]\<rparr>"
  have "enqueue_call realloc ty c k ob h = Some ?h'" using 2(1) by (simp add: enqueue_call_def)
  moreover have "only_enqueued h ?h' [((ty, c, k, ob), 1)] [slot]"
    using 2 by (simp add: only_enqueued_def request_of_def)
  moreover have "length (pending (available (events ?h'))) = length (pending (available (events h))) + 1"
    using 2(3) by simp
  ultimately show ?thesis by (intro exI[of _ 1] exI[of _ ?h'] exI[of _ "[slot]"]) simp
qed

lemma process_event_draining:
  assumes "store_ok (events h)" and "processing_flag (events h) \<noteq> 0"
  shows "\<exists>h' made new. process_event cs r h =
      Some (r \<or> (\<exists>conducts. Process_All conducts \<in> set cs), h') \<and> only_enqueued h h' made new \<and>
      map fst made = requests_made cs"
  using assms
proof (induction cs arbitrary: h)
  case Nil
  then show ?case using only_enqueued_refl by auto
next
  case (Cons c cs)
  show ?case
  proof (cases c)
    case (Enqueue realloc ty cr kr obr)
    from enqueue_call_only_enqueued[OF Cons.prems(1), of realloc ty cr kr obr]
    obtain rr h1 new1 where e: "enqueue_call realloc ty cr kr obr h = Some h1"
      and o1: "only_enqueued h h1 [((ty, cr, kr, obr), rr)] new1" by blast
    have "store_ok (events h1)" "processing_flag (events h1) \<noteq> 0"
      using o1 Cons.prems(2) by (simp_all add: only_enqueued_def)
    from Cons.IH[OF this]
    obtain h' made new where "process_event cs r h1 =
      Some (r \<or> (\<exists>conducts. Process_All conducts \<in> set cs), h')"
      and o2: "only_enqueued h1 h' made new" and m2: "map fst made = requests_made cs"
      by blast
    then have "process_event (c # cs) r h =
      Some (r \<or> (\<exists>conducts. Process_All conducts \<in> set (c # cs)), h')"
      using e by (simp add: Enqueue)
    moreover have "map fst ([((ty, cr, kr, obr), rr)] @ made) = requests_made (c # cs)"
      using m2 by (simp add: Enqueue)
    ultimately show ?thesis using only_enqueued_trans[OF o1 o2] by blast
  next
    case (Process_Queue conducts)
    from Cons.IH[OF Cons.prems]
    obtain h' made new where "process_event cs r h =
      Some (r \<or> (\<exists>conducts. Process_All conducts \<in> set cs), h')"
      and o2: "only_enqueued h h' made new" and m2: "map fst made = requests_made cs"
      by blast
    then have "process_event (c # cs) r h =
      Some (r \<or> (\<exists>conducts. Process_All conducts \<in> set (c # cs)), h')"
      using process_queue_draining[OF Cons.prems(2)] by (simp add: Process_Queue)
    moreover have "map fst made = requests_made (c # cs)" using m2 by (simp add: Process_Queue)
    ultimately show ?thesis using o2 by blast
  next
    case (Process_All conducts)
    have "process_event (c # cs) r h =
      Some (r \<or> (\<exists>conducts. Process_All conducts \<in> set (c # cs)), h)"
      using process_all_draining[OF Cons.prems(2)] by (auto simp: Process_All)
    moreover have "map fst ([] :: (request \<times> int) list) = requests_made (c # cs)"
      by (simp add: Process_All)
    ultimately show ?thesis using only_enqueued_refl[OF Cons.prems(1)] by blast
  qed
qed

lemma handler_draining:
  assumes "store_ok (events h)" and "processing_flag (events h) \<noteq> 0"
  shows "\<exists>h' made new. (case conducts of [] \<Rightarrow> Some (False, h)
                    | c # _ \<Rightarrow> process_event (calls c) (raises c) h) =
      Some (conducts \<noteq> [] \<and> faults (hd conducts), h') \<and> only_enqueued h h' made new \<and>
      map fst made = handler_requests (take 1 conducts)"
proof (cases conducts)
  case Nil
  have "map fst ([] :: (request \<times> int) list) = handler_requests (take 1 conducts)"
    by (simp add: Nil handler_requests_def)
  then show ?thesis using only_enqueued_refl[OF assms(1)] Nil by auto
next
  case (Cons c cs)
  then show ?thesis
    using process_event_draining[OF assms, of "calls c" "raises c"]
    by (simp add: faults_def handler_requests_def)
qed

lemma clear_event_char:
  assumes "i < length (base (processing (events h)))"
  shows "clear_event i h =
    Some (h\<lparr>events := (events h)\<lparr>processing :=
               (processing (events h))\<lparr>base := (base (processing (events h)))
                  [i := clear_slot (base (processing (events h)) ! i)]\<rparr>\<rparr>,
            obj_writes := obj_writes h @ [(self (events h), Qnil), (self (events h), Qnil), (self (events h), Qnil)]\<rparr>)"
  using assms
  by (simp add: clear_event_def element_read_def element_write_def RB_OBJ_WRITE_def clear_slot_def Let_def)

lemma loop_unfold:
  "Memory_Profiler_Events_process_queue_from conducts i h =
     (if i < unat (count (processing (events h)))
      then process_queue_body conducts i h \<bind> Memory_Profiler_Events_process_queue_from (tl conducts) (i + 1)
      else Some h)"
  by (subst Memory_Profiler_Events_process_queue_from.simps)
    (simp add: process_queue_body_def Memory_Profiler_Events_process_event_protected_def Let_def
       split: Option.bind_split prod.splits)

lemma loop_step:
  assumes ok: "store_ok (events h)" and fl: "processing_flag (events h) \<noteq> 0"
    and lt: "i < unat (count (processing (events h)))"
  shows "\<exists>h1 made new. process_queue_body conducts i h = Some h1 \<and>
      (\<exists>state h2. Memory_Profiler_Events_process_event_protected conducts
                      (h\<lparr>processed := processed h @ [base (processing (events h)) ! i]\<rparr>) =
                    Some (state, h2) \<and>
                  processing (events h2) = processing (events h) \<and>
                  clear_event i (if state then rb_warning h2 else h2) = Some h1) \<and>
      store_ok (events h1) \<and> processing_flag (events h1) = processing_flag (events h) \<and>
      self (events h1) = self (events h) \<and>
      processed h1 = processed h @ [base (processing (events h)) ! i] \<and>
      processing (events h1) = (processing (events h))\<lparr>base := (base (processing (events h)))
                  [i := clear_slot (base (processing (events h)) ! i)]\<rparr> \<and>
      enqueue_calls h1 = enqueue_calls h @ made \<and>
      map fst made = handler_requests (take 1 conducts) \<and>
      map request_of new = accepted_of made \<and>
      pending (available (events h1)) = pending (available (events h)) @ new \<and>
      warnings h1 = warnings h + (if conducts \<noteq> [] \<and> faults (hd conducts) then 1 else 0)"
proof -
  let ?P = "processing (events h)"
  have okP: "queue_ok ?P" using ok by (simp add: store_ok_def)
  have inb: "i < length (base ?P)" using lt queue_ok_fits[OF okP] by simp
  let ?h0 = "h\<lparr>processed := processed h @ [base ?P ! i]\<rparr>"
  have "store_ok (events ?h0)" "processing_flag (events ?h0) \<noteq> 0" using ok fl by simp_all
  from handler_draining[OF this, of conducts]
  obtain h2 made new where run: "(case conducts of [] \<Rightarrow> Some (False, ?h0)
                    | c # _ \<Rightarrow> process_event (calls c) (raises c) ?h0) =
      Some (conducts \<noteq> [] \<and> faults (hd conducts), h2)" and o: "only_enqueued ?h0 h2 made new"
    and m: "map fst made = handler_requests (take 1 conducts)"
    by blast
  let ?st = "conducts \<noteq> [] \<and> faults (hd conducts)"
  let ?h3 = "if ?st then rb_warning h2 else h2"
  have P3: "processing (events ?h3) = ?P" and s3: "self (events ?h3) = self (events h)"
    using o by (simp_all add: only_enqueued_def rb_warning_def)
  let ?P1 = "?P\<lparr>base := (base ?P)[i := clear_slot (base ?P ! i)]\<rparr>"
  let ?h4 = "?h3\<lparr>events := (events ?h3)\<lparr>processing := ?P1\<rparr>,
            obj_writes := obj_writes ?h3 @ [(self (events h), Qnil), (self (events h), Qnil), (self (events h), Qnil)]\<rparr>"
  have ce: "clear_event i ?h3 = Some ?h4"
    using clear_event_char[of i ?h3] inb by (simp only: P3 s3)
  have run': "Memory_Profiler_Events_process_event_protected conducts ?h0 = Some (?st, h2)"
    using run by (simp only: Memory_Profiler_Events_process_event_protected_def)
  have step: "process_queue_body conducts i h = Some ?h4"
    unfolding process_queue_body_def
    by (simp add: lt inb Memory_Profiler_Queue_at_def element_read_def run' ce del: One_nat_def)
  have P2: "processing (events h2) = ?P" using o by (simp add: only_enqueued_def)
  have parts: "\<exists>state h2. Memory_Profiler_Events_process_event_protected conducts ?h0 = Some (state, h2) \<and>
                  processing (events h2) = ?P \<and>
                  clear_event i (if state then rb_warning h2 else h2) = Some ?h4"
    using run' P2 ce by blast
  have okP1: "queue_ok ?P1" using okP by (simp add: queue_ok_def)
  have "store_ok (events ?h4)" using o okP1 by (simp add: only_enqueued_def store_ok_def rb_warning_def)
  moreover have "processing_flag (events ?h4) = processing_flag (events h)"
    and "self (events ?h4) = self (events h)"
    and "processed ?h4 = processed h @ [base ?P ! i]"
    and "processing (events ?h4) = ?P1"
    and "enqueue_calls ?h4 = enqueue_calls h @ made"
    and "map request_of new = accepted_of made"
    and "pending (available (events ?h4)) = pending (available (events h)) @ new"
    and "warnings ?h4 = warnings h + (if ?st then 1 else 0)"
    using o by (simp_all add: only_enqueued_def rb_warning_def)
  ultimately show ?thesis using step parts m by blast
qed

lemma clear_next:
  assumes "k < length B"
  shows "(map f (take k B) @ drop k B)[k := f ((map f (take k B) @ drop k B) ! k)] =
    map f (take (Suc k) B) @ drop (Suc k) B"
proof -
  have d: "drop k B = B ! k # drop (Suc k) B" using assms by (simp add: Cons_nth_drop_Suc)
  have l: "length (map f (take k B)) = k" using assms by simp
  have n: "(map f (take k B) @ drop k B) ! k = B ! k"
    using assms by (simp add: nth_append)
  have "(map f (take k B) @ drop k B)[k := f (B ! k)] = map f (take k B) @ (drop k B)[0 := f (B ! k)]"
    using l by (simp add: list_update_append)
  also have "\<dots> = map f (take k B) @ f (B ! k) # drop (Suc k) B" by (simp add: d)
  also have "\<dots> = map f (take (Suc k) B) @ drop (Suc k) B"
    using assms by (simp add: take_Suc_conv_app_nth)
  finally show ?thesis by (simp add: n)
qed

lemma filter_take_Suc:
  "length (filter P (take (Suc k) cs)) =
     length (filter P (take k cs)) + (if drop k cs \<noteq> [] \<and> P (hd (drop k cs)) then 1 else 0)"
proof (cases "k < length cs")
  case True
  then have "take (Suc k) cs = take k cs @ [cs ! k]" by (simp add: take_Suc_conv_app_nth)
  moreover have "hd (drop k cs) = cs ! k" using True by (simp add: hd_drop_conv_nth)
  ultimately show ?thesis using True by simp
next
  case False
  then show ?thesis by simp
qed

lemma handler_requests_take_Suc:
  "handler_requests (take (Suc k) conducts) =
     handler_requests (take k conducts) @ handler_requests (take 1 (drop k conducts))"
proof (cases "k < length conducts")
  case True
  then have "take (Suc k) conducts = take k conducts @ [conducts ! k]"
    by (simp add: take_Suc_conv_app_nth)
  moreover have "take 1 (drop k conducts) = [conducts ! k]"
    using True by (simp add: take_Suc_conv_app_nth)
  ultimately show ?thesis by (simp add: handler_requests_def)
next
  case False
  then show ?thesis by (simp add: handler_requests_def)
qed

lemma loop_prefix:
  assumes ok: "store_ok (events h)" and fl: "processing_flag (events h) \<noteq> 0"
  shows "k \<le> unat (count (processing (events h))) \<Longrightarrow>
    \<exists>hk made new. process_queue_reaches k conducts h = Some hk \<and>
      Memory_Profiler_Events_process_queue_from conducts 0 h =
        Memory_Profiler_Events_process_queue_from (drop k conducts) k hk \<and>
      store_ok (events hk) \<and> processing_flag (events hk) = processing_flag (events h) \<and>
      self (events hk) = self (events h) \<and>
      processed hk = processed h @ take k (pending (processing (events h))) \<and>
      processing (events hk) = (processing (events h))\<lparr>base :=
          map clear_slot (take k (base (processing (events h)))) @ drop k (base (processing (events h)))\<rparr> \<and>
      enqueue_calls hk = enqueue_calls h @ made \<and>
      map fst made = handler_requests (take k conducts) \<and>
      map request_of new = accepted_of made \<and>
      pending (available (events hk)) = pending (available (events h)) @ new \<and>
      warnings hk = warnings h + length (filter faults (take k conducts))"
proof (induction k)
  case 0
  show ?case
    by (rule exI[of _ h], rule exI[of _ "[]"], rule exI[of _ "[]"]) (simp add: ok handler_requests_def)
next
  case (Suc k)
  let ?P = "processing (events h)"
  let ?B = "base ?P"
  have kn: "k < unat (count ?P)" using Suc.prems by simp
  have okP: "queue_ok ?P" using ok by (simp add: store_ok_def)
  have kB: "k < length ?B" using kn queue_ok_fits[OF okP] by simp
  from Suc.IH kn obtain hk made new where
    re: "process_queue_reaches k conducts h = Some hk"
    and run: "Memory_Profiler_Events_process_queue_from conducts 0 h =
        Memory_Profiler_Events_process_queue_from (drop k conducts) k hk"
    and okk: "store_ok (events hk)" and flk: "processing_flag (events hk) = processing_flag (events h)"
    and sk: "self (events hk) = self (events h)"
    and prk: "processed hk = processed h @ take k (pending ?P)"
    and Pk: "processing (events hk) = ?P\<lparr>base := map clear_slot (take k ?B) @ drop k ?B\<rparr>"
    and eck: "enqueue_calls hk = enqueue_calls h @ made"
    and mk: "map fst made = handler_requests (take k conducts)"
    and ack: "map request_of new = accepted_of made"
    and avk: "pending (available (events hk)) = pending (available (events h)) @ new"
    and wk: "warnings hk = warnings h + length (filter faults (take k conducts))"
    by auto
  have fl': "processing_flag (events hk) \<noteq> 0" using fl flk by simp
  have lt': "k < unat (count (processing (events hk)))" using kn by (simp add: Pk)
  from loop_step[OF okk fl' lt', of "drop k conducts"]
  obtain h1 made1 new1 where
    st: "process_queue_body (drop k conducts) k hk = Some h1"
    and ok1: "store_ok (events h1)" and fl1: "processing_flag (events h1) = processing_flag (events hk)"
    and s1: "self (events h1) = self (events hk)"
    and pr1: "processed h1 = processed hk @ [base (processing (events hk)) ! k]"
    and P1: "processing (events h1) = (processing (events hk))\<lparr>base := (base (processing (events hk)))
                  [k := clear_slot (base (processing (events hk)) ! k)]\<rparr>"
    and ec1: "enqueue_calls h1 = enqueue_calls hk @ made1"
    and m1: "map fst made1 = handler_requests (take 1 (drop k conducts))"
    and ac1: "map request_of new1 = accepted_of made1"
    and av1: "pending (available (events h1)) = pending (available (events hk)) @ new1"
    and w1: "warnings h1 = warnings hk + (if drop k conducts \<noteq> [] \<and> faults (hd (drop k conducts)) then 1 else 0)"
    by blast
  have nk: "(map clear_slot (take k ?B) @ drop k ?B) ! k = ?B ! k"
    using kB by (simp add: nth_append)
  have tk: "take (Suc k) (pending ?P) = take k (pending ?P) @ [?B ! k]"
    using kn kB by (simp add: pending_def take_Suc_conv_app_nth)
  have "Memory_Profiler_Events_process_queue_from (drop k conducts) k hk =
        Memory_Profiler_Events_process_queue_from (tl (drop k conducts)) (k + 1) h1"
    by (subst loop_unfold) (simp add: lt' st del: One_nat_def)
  then have "Memory_Profiler_Events_process_queue_from conducts 0 h =
        Memory_Profiler_Events_process_queue_from (drop (Suc k) conducts) (Suc k) h1"
    using run by (simp add: drop_Suc tl_drop)
  moreover have "process_queue_reaches (Suc k) conducts h = Some h1" using re st by simp
  moreover have "processed h1 = processed h @ take (Suc k) (pending ?P)"
    using pr1 prk by (simp add: Pk nk tk)
  moreover have "processing (events h1) = ?P\<lparr>base := map clear_slot (take (Suc k) ?B) @ drop (Suc k) ?B\<rparr>"
    using P1 clear_next[OF kB, of clear_slot] by (simp add: Pk)
  moreover have "enqueue_calls h1 = enqueue_calls h @ (made @ made1)" using ec1 eck by simp
  moreover have "map fst (made @ made1) = handler_requests (take (Suc k) conducts)"
    using mk m1 by (simp only: handler_requests_take_Suc map_append)
  moreover have "map request_of (new @ new1) = accepted_of (made @ made1)" using ack ac1 by simp
  moreover have "pending (available (events h1)) = pending (available (events h)) @ (new @ new1)"
    using av1 avk by simp
  moreover have "warnings h1 = warnings h + length (filter faults (take (Suc k) conducts))"
    using w1 wk by (simp only: filter_take_Suc[of faults k conducts])
  ultimately show ?case using ok1 fl1 flk s1 sk
    by (intro exI[of _ h1] exI[of _ "made @ made1"] exI[of _ "new @ new1"]) simp
qed

lemma loop_all:
  assumes ok: "store_ok (events h)" and fl: "processing_flag (events h) \<noteq> 0"
  shows "\<exists>h' made new. Memory_Profiler_Events_process_queue_from conducts 0 h = Some h' \<and>
      store_ok (events h') \<and> processing_flag (events h') = processing_flag (events h) \<and>
      self (events h') = self (events h) \<and>
      processed h' = processed h @ pending (processing (events h)) \<and>
      processing (events h') = (processing (events h))\<lparr>base :=
          map clear_slot (pending (processing (events h)))
          @ drop (unat (count (processing (events h)))) (base (processing (events h)))\<rparr> \<and>
      enqueue_calls h' = enqueue_calls h @ made \<and>
      map fst made = handler_requests (take (unat (count (processing (events h)))) conducts) \<and>
      map request_of new = accepted_of made \<and>
      pending (available (events h')) = pending (available (events h)) @ new \<and>
      warnings h' = warnings h
        + length (filter faults (take (unat (count (processing (events h)))) conducts))"
proof -
  let ?n = "unat (count (processing (events h)))"
  from loop_prefix[OF ok fl, of ?n conducts]
  obtain hk made new where
    run: "Memory_Profiler_Events_process_queue_from conducts 0 h =
        Memory_Profiler_Events_process_queue_from (drop ?n conducts) ?n hk"
    and rest: "store_ok (events hk)" "processing_flag (events hk) = processing_flag (events h)"
      "self (events hk) = self (events h)"
      "processed hk = processed h @ take ?n (pending (processing (events h)))"
      "processing (events hk) = (processing (events h))\<lparr>base :=
          map clear_slot (take ?n (base (processing (events h)))) @ drop ?n (base (processing (events h)))\<rparr>"
      "enqueue_calls hk = enqueue_calls h @ made"
      "map fst made = handler_requests (take ?n conducts)"
      "map request_of new = accepted_of made"
      "pending (available (events hk)) = pending (available (events h)) @ new"
      "warnings hk = warnings h + length (filter faults (take ?n conducts))"
    by auto
  have "Memory_Profiler_Events_process_queue_from (drop ?n conducts) ?n hk = Some hk"
    by (subst Memory_Profiler_Events_process_queue_from.simps) (simp add: rest(5))
  then have "Memory_Profiler_Events_process_queue_from conducts 0 h = Some hk" using run by simp
  then show ?thesis using rest
    by (intro exI[of _ hk] exI[of _ made] exI[of _ new]) (simp add: pending_def)
qed

lemma process_queue_unfold:
  "processing_flag (events h) = 0 \<Longrightarrow>
    Memory_Profiler_Events_process_queue conducts h =
      (case Memory_Profiler_Events_process_queue_from conducts 0 (drain_started h) of
         None \<Rightarrow> None
       | Some h' \<Rightarrow> Some (h'\<lparr>events := (events h')\<lparr>processing := Memory_Profiler_Queue_clear (processing (events h')),
                                                  processing_flag := 0\<rparr>\<rparr>))"
  by (simp add: Memory_Profiler_Events_process_queue.simps drain_started_def Let_def
      split: option.split)

lemma drain_started_ok:
  "store_ok (events h) \<Longrightarrow> store_ok (events (drain_started h))"
  by (auto simp: store_ok_def drain_started_def)

lemma process_queue_char:
  assumes ok: "store_ok (events h)" and fl: "processing_flag (events h) = 0"
  shows "\<exists>h' made new. Memory_Profiler_Events_process_queue conducts h = Some h' \<and>
      store_ok (events h') \<and> processing_flag (events h') = 0 \<and>
      self (events h') = self (events h) \<and>
      processed h' = processed h @ pending (available (events h)) \<and>
      processing (events h') = (available (events h))\<lparr>base :=
          map clear_slot (pending (available (events h)))
          @ drop (unat (count (available (events h)))) (base (available (events h))),
          count := 0\<rparr> \<and>
      enqueue_calls h' = enqueue_calls h @ made \<and>
      map fst made = handler_requests (take (unat (count (available (events h)))) conducts) \<and>
      map request_of new = accepted_of made \<and>
      pending (available (events h')) = pending (processing (events h)) @ new \<and>
      warnings h' = warnings h
        + length (filter faults (take (unat (count (available (events h)))) conducts))"
proof -
  let ?s = "drain_started h"
  have oks: "store_ok (events ?s)" using ok by (rule drain_started_ok)
  have fls: "processing_flag (events ?s) \<noteq> 0" by (simp add: drain_started_def)
  from loop_all[OF oks fls, of conducts]
  obtain hn made new where run: "Memory_Profiler_Events_process_queue_from conducts 0 ?s = Some hn"
    and rest: "store_ok (events hn)" "self (events hn) = self (events ?s)"
      "processed hn = processed ?s @ pending (processing (events ?s))"
      "processing (events hn) = (processing (events ?s))\<lparr>base :=
          map clear_slot (pending (processing (events ?s)))
          @ drop (unat (count (processing (events ?s)))) (base (processing (events ?s)))\<rparr>"
      "enqueue_calls hn = enqueue_calls ?s @ made"
      "map fst made = handler_requests (take (unat (count (processing (events ?s)))) conducts)"
      "map request_of new = accepted_of made"
      "pending (available (events hn)) = pending (available (events ?s)) @ new"
      "warnings hn = warnings ?s
        + length (filter faults (take (unat (count (processing (events ?s)))) conducts))"
    by blast
  let ?h' = "hn\<lparr>events := (events hn)\<lparr>processing := Memory_Profiler_Queue_clear (processing (events hn)),
                                                  processing_flag := 0\<rparr>\<rparr>"
  have "Memory_Profiler_Events_process_queue conducts h = Some ?h'"
    using process_queue_unfold[OF fl, of conducts] run by simp
  moreover have "store_ok (events ?h')"
    using rest(1) by (simp add: store_ok_def queue_ok_def Memory_Profiler_Queue_clear_def)
  ultimately show ?thesis
    using rest
    by (intro exI[of _ ?h'] exI[of _ made] exI[of _ new])
      (simp add: drain_started_def Memory_Profiler_Queue_clear_def)
qed

section \<open>Sequences of calls\<close>

lemma pending_empty: "count q = 0 \<Longrightarrow> pending q = []"
  by (simp add: pending_def)

lemma enqueue_call_idle:
  assumes "idle h"
  shows "\<exists>r h'. enqueue_call realloc ty c k ob h = Some h' \<and> idle h' \<and>
    enqueue_calls h' = enqueue_calls h @ [((ty, c, k, ob), r)] \<and>
    length (pending (available (events h'))) =
      length (pending (available (events h))) + (if r = 1 then 1 else 0)"
proof -
  have ok: "store_ok (events h)" using assms by (simp add: idle_def)
  from enqueue_call_only_enqueued[OF ok, of realloc ty c k ob]
  obtain r h' new where e: "enqueue_call realloc ty c k ob h = Some h'"
    and o: "only_enqueued h h' [((ty, c, k, ob), r)] new"
    and l: "length (pending (available (events h'))) =
      length (pending (available (events h))) + (if r = 1 then 1 else 0)" by blast
  have "idle h'" using assms o by (simp add: idle_def only_enqueued_def accepted_def)
  then show ?thesis using e o l by (auto simp: only_enqueued_def)
qed

lemma length_accepted_of:
  "length (accepted_of made) = length (filter (\<lambda>r. r = 1) (map snd made))"
  by (simp add: accepted_of_def filter_map comp_def)

lemma process_queue_idle:
  assumes "idle h"
  shows "\<exists>h' made. Memory_Profiler_Events_process_queue conducts h = Some h' \<and> idle h' \<and>
    map request_of (processed h') = accepted h \<and>
    enqueue_calls h' = enqueue_calls h @ made \<and>
    map fst made = handler_requests (take (length (pending (available (events h)))) conducts) \<and>
    length (pending (available (events h'))) = length (filter (\<lambda>r. r = 1) (map snd made))"
proof -
  have ok: "store_ok (events h)" and fl: "processing_flag (events h) = 0"
    and em: "pending (processing (events h)) = []"
    and ac: "accepted h = map request_of (processed h @ pending (available (events h)))"
    using assms by (simp_all add: idle_def pending_empty)
  have "queue_ok (available (events h))" using ok by (simp add: store_ok_def)
  from queue_ok_fits[OF this]
  have len: "length (pending (available (events h))) = unat (count (available (events h)))"
    by (simp add: pending_def)
  from process_queue_char[OF ok fl, of conducts]
  obtain h' made new where r: "Memory_Profiler_Events_process_queue conducts h = Some h'"
    "store_ok (events h')" "processing_flag (events h') = 0"
    "processed h' = processed h @ pending (available (events h))"
    "count (processing (events h')) = 0"
    "enqueue_calls h' = enqueue_calls h @ made"
    "map fst made = handler_requests (take (unat (count (available (events h)))) conducts)"
    "map request_of new = accepted_of made"
    "pending (available (events h')) = pending (processing (events h)) @ new"
    by fastforce
  have "length new = length (accepted_of made)" using r(8) by (metis length_map)
  then have "length (pending (available (events h'))) = length (filter (\<lambda>r. r = 1) (map snd made))"
    using r(9) em by (simp add: length_accepted_of)
  then show ?thesis using r em ac len
    by (intro exI[of _ h'] exI[of _ made]) (simp add: idle_def accepted_def)
qed

lemma process_all_idle:
  assumes "idle h"
  shows "\<exists>h' made. Memory_Profiler_Events_process_all conducts h = Some (Inr h') \<and> idle h' \<and>
    map request_of (processed h') = accepted h \<and>
    enqueue_calls h' = enqueue_calls h @ made \<and>
    map fst made = handler_requests (take (length (pending (available (events h)))) conducts) \<and>
    length (pending (available (events h'))) = length (filter (\<lambda>r. r = 1) (map snd made))"
proof -
  have "processing_flag (events h) = 0" using assms by (simp add: idle_def)
  then show ?thesis
    using process_queue_idle[OF assms, of conducts]
    by (auto simp: Memory_Profiler_Events_process_all.simps)
qed

lemma store_calls_idle:
  "idle h \<Longrightarrow> \<exists>h' made. store_calls cs h = Some h' \<and> idle h' \<and>
     enqueue_calls h' = enqueue_calls h @ made \<and>
     map fst made = prescribed_calls cs (length (pending (available (events h)))) (map snd made)"
proof (induction cs arbitrary: h)
  case Nil
  then show ?case by simp
next
  case (Cons c cs)
  let ?w = "length (pending (available (events h)))"
  show ?case
  proof (cases c)
    case (Enqueue realloc ty cr kr obr)
    from enqueue_call_idle[OF Cons.prems, of realloc ty cr kr obr]
    obtain r h1 where e: "enqueue_call realloc ty cr kr obr h = Some h1" and i1: "idle h1"
      and c1: "enqueue_calls h1 = enqueue_calls h @ [((ty, cr, kr, obr), r)]"
      and l1: "length (pending (available (events h1))) = ?w + (if r = 1 then 1 else 0)"
      by blast
    from Cons.IH[OF i1] obtain h' made where
      r: "store_calls cs h1 = Some h'" "idle h'" "enqueue_calls h' = enqueue_calls h1 @ made"
      "map fst made = prescribed_calls cs (length (pending (available (events h1)))) (map snd made)"
      by blast
    have "store_calls (c # cs) h = Some h'" using e r(1) by (simp add: Enqueue)
    moreover have "enqueue_calls h' = enqueue_calls h @ (((ty, cr, kr, obr), r) # made)"
      using c1 r(3) by simp
    moreover have "map fst (((ty, cr, kr, obr), r) # made) =
        prescribed_calls (c # cs) ?w (map snd (((ty, cr, kr, obr), r) # made))"
      using r(4) l1 by (simp add: Enqueue)
    ultimately show ?thesis using r(2) by blast
  next
    case (Process_Queue conducts)
    from process_queue_idle[OF Cons.prems, of conducts]
    obtain h1 made1 where e: "Memory_Profiler_Events_process_queue conducts h = Some h1"
      and i1: "idle h1" and c1: "enqueue_calls h1 = enqueue_calls h @ made1"
      and m1: "map fst made1 = handler_requests (take ?w conducts)"
      and l1: "length (pending (available (events h1))) = length (filter (\<lambda>r. r = 1) (map snd made1))"
      by blast
    from Cons.IH[OF i1] obtain h' made where
      r: "store_calls cs h1 = Some h'" "idle h'" "enqueue_calls h' = enqueue_calls h1 @ made"
      "map fst made = prescribed_calls cs (length (pending (available (events h1)))) (map snd made)"
      by blast
    have lm: "length (handler_requests (take ?w conducts)) = length made1"
      using m1 by (metis length_map)
    have "store_calls (c # cs) h = Some h'" using e r(1) by (simp add: Process_Queue)
    moreover have "enqueue_calls h' = enqueue_calls h @ (made1 @ made)" using c1 r(3) by simp
    moreover have "map fst (made1 @ made) = prescribed_calls (c # cs) ?w (map snd (made1 @ made))"
      using r(4) m1[symmetric] l1 lm by (simp add: Process_Queue Let_def)
    ultimately show ?thesis using r(2) by blast
  next
    case (Process_All conducts)
    from process_all_idle[OF Cons.prems, of conducts]
    obtain h1 made1 where e: "Memory_Profiler_Events_process_all conducts h = Some (Inr h1)"
      and i1: "idle h1" and c1: "enqueue_calls h1 = enqueue_calls h @ made1"
      and m1: "map fst made1 = handler_requests (take ?w conducts)"
      and l1: "length (pending (available (events h1))) = length (filter (\<lambda>r. r = 1) (map snd made1))"
      by blast
    from Cons.IH[OF i1] obtain h' made where
      r: "store_calls cs h1 = Some h'" "idle h'" "enqueue_calls h' = enqueue_calls h1 @ made"
      "map fst made = prescribed_calls cs (length (pending (available (events h1)))) (map snd made)"
      by blast
    have lm: "length (handler_requests (take ?w conducts)) = length made1"
      using m1 by (metis length_map)
    have "store_calls (c # cs) h = Some h'" using e r(1) by (simp add: Process_All)
    moreover have "enqueue_calls h' = enqueue_calls h @ (made1 @ made)" using c1 r(3) by simp
    moreover have "map fst (made1 @ made) = prescribed_calls (c # cs) ?w (map snd (made1 @ made))"
      using r(4) m1[symmetric] l1 lm by (simp add: Process_All Let_def)
    ultimately show ?thesis using r(2) by blast
  qed
qed

lemma idle_new:
  assumes "Memory_Profiler_Events_new wrapper (Some job) = Inr ev"
  shows "idle (host_with ev)"
proof -
  have "queue_ok (Memory_Profiler_Queue_initialize sizeof_Memory_Profiler_Event :: Memory_Profiler_Event Memory_Profiler_Queue)"
    by (rule queue_ok_initialize) (simp_all add: sizeof_Memory_Profiler_Event_def)
  then show ?thesis
    using assms
    by (auto simp: Memory_Profiler_Events_new_def idle_def host_with_def store_ok_def pending_def
        Memory_Profiler_Queue_initialize_def accepted_def)
qed

lemma pending_partly_cleared:
  assumes "k \<le> unat (count q)" "unat (count q) \<le> length (base q)"
  shows "pending (q\<lparr>base := map f (take k (base q)) @ drop k (base q)\<rparr>) =
    map f (take k (base q)) @ drop k (pending q)"
  using assms by (simp add: pending_def drop_take min_def)

lemma filter_walked_cleared: "filter (walked 1) (map clear_slot xs) = []"
  by (induction xs) (simp_all add: sentinel_def clear_slot_def)

lemma cleared_clear_slot: "cleared (clear_slot e)"
  by (simp add: cleared_def clear_slot_def)

section \<open>Examples\<close>

lemma queue_ok_queue_of: "length records \<le> 128 \<Longrightarrow> queue_ok (queue_of records)"
proof -
  assume a: "length records \<le> 128"
  then have u: "unat (of_nat (length records) :: size_t) = length records"
    by (simp add: unat_of_nat)
  have "\<exists>k. unat (128 :: size_t) = 128 * 2 ^ k" by (rule exI[of _ 0]) simp
  then show ?thesis
    using a by (simp add: queue_ok_def queue_of_def sizeof_Memory_Profiler_Event_def word_le_nat_alt u)
qed

lemma pending_queue_of: "length records \<le> 128 \<Longrightarrow> pending (queue_of records) = records"
  by (simp add: pending_def queue_of_def unat_of_nat)

lemma store_ok_example: "store_ok example_store"
  by (simp add: store_ok_def example_store_def queue_ok_initialize sizeof_Memory_Profiler_Event_def)

lemma push_fails_when_realloc_fails:
  assumes ok: "queue_ok q" and full: "capacity q < count q + 1" and no: "\<forall>bytes. realloc bytes = None"
  shows "Memory_Profiler_Queue_push realloc q = Some (None, q)"
proof -
  have e: "0 < unat (element_size q)" "unat (element_size q) < 2 ^ 63"
    using ok by (simp_all add: queue_ok_def)
  have "\<not> count q + 1 \<le> capacity q" using full by simp
  then have "Memory_Profiler_Queue_resize realloc q (count q + 1) = Some (- 1, q)"
    using resize_char[OF e, of realloc "count q + 1"] no by simp
  then show ?thesis using full by (simp add: Memory_Profiler_Queue_push_def Let_def)
qed

lemma mark_partly_cleared:
  assumes ok: "queue_ok q" and k: "k \<le> unat (count q)"
  shows "Memory_Profiler_Events_mark_queue (q\<lparr>base := map clear_slot (take k (base q)) @ drop k (base q)\<rparr>) 1 =
    Some (concat (map references_of (filter (walked 1) (drop k (pending q)))))"
proof -
  let ?q = "q\<lparr>base := map clear_slot (take k (base q)) @ drop k (base q)\<rparr>"
  have fit: "unat (count q) \<le> length (base q)" using ok by (rule queue_ok_fits)
  have "unat (count ?q) \<le> length (base ?q)" using fit k by simp
  from mark_queue_char[OF this, of 1]
  show ?thesis
    by (simp only: pending_partly_cleared[OF k fit] filter_append filter_walked_cleared) simp
qed

lemma nth_partly_cleared:
  assumes "k \<le> length B"
  shows "j < k \<Longrightarrow> (map clear_slot (take k B) @ drop k B) ! j = clear_slot (B ! j)"
    and "k \<le> j \<Longrightarrow> j < length B \<Longrightarrow> (map clear_slot (take k B) @ drop k B) ! j = B ! j"
  using assms by (simp_all add: nth_append)

lemma store_ok_three_waiting: "store_ok (events three_waiting)"
  using store_ok_example
  by (simp add: three_waiting_def host_with_def store_ok_def queue_ok_queue_of)

lemma three_waiting_facts:
  "processing_flag (events three_waiting) = 0"
  "unat (count (available (events three_waiting))) = 3"
  "pending (available (events three_waiting)) = [created, destroyed, created_other]"
  "processed three_waiting = []" "warnings three_waiting = 0"
  by (simp_all add: three_waiting_def host_with_def example_store_def pending_queue_of)
     (simp add: queue_of_def)

lemma walked_0_fun [simp]: "walked 0 = (\<lambda>event. True)"
  by (rule ext) simp

lemma walked_1_fun [simp]: "walked 1 = (\<lambda>event. \<not> sentinel event)"
  by (rule ext) simp

lemma moved_0 [simp]: "moved loc 0 = relocated loc"
  by (rule ext) (simp add: moved_def)

lemma moved_1 [simp]: "moved loc 1 = (\<lambda>event. if sentinel event then event else relocated loc event)"
  by (rule ext) (simp add: moved_def)

lemma store_ok_walk_example: "store_ok walk_example"
  by (simp add: walk_example_def store_ok_def queue_ok_queue_of)

section \<open>Claims about the queue\<close>

text \<open>
  C5.  Storing 10,000 records in a queue that starts at capacity 0, with a \<^verbatim>\<open>realloc\<close>
  that never fails and an element size for which 16384 elements fit in \<^verbatim>\<open>size_t\<close>:
  every call returns, the count is 10,000, the capacity is 16384, which is the floor 128
  doubled 7 times and the first doubling of 128 that covers 10,000, and the first and the
  last record (indeed every record) are read back unchanged through
  \<^verbatim>\<open>Memory_Profiler_Queue_at\<close>.
\<close>

theorem growth_to_10000_records:
  assumes "0 < unat esize" and "16384 * unat esize \<le> unat SIZE_MAX"
    and "\<forall>bytes. realloc bytes \<noteq> None" and "length vs = 10000"
  shows "\<exists>q. store_records realloc vs (Memory_Profiler_Queue_initialize esize) = Some q \<and>
    unat (count q) = 10000 \<and>
    unat (capacity q) = 128 * 2 ^ 7 \<and>
    unat (capacity q) = unbounded_doubling (unat MEMORY_PROFILER_QUEUE_DEFAULT_COUNT) 10000 \<and>
    10000 \<le> unat (capacity q) \<and>
    retrieve q 0 = Some (vs ! 0) \<and>
    retrieve q 9999 = Some (vs ! 9999) \<and>
    (\<forall>i<10000. retrieve q i = Some (vs ! i))"
proof -
  have "16384 * unat esize \<le> 2 ^ 64 - 1" using assms(2) by (simp add: unat_SIZE_MAX)
  then have small: "unat esize < 2 ^ 63" by simp
  have start: "holds (Memory_Profiler_Queue_initialize esize :: 'a Memory_Profiler_Queue) []"
    using assms(1) small by (rule holds_initialize)
  have "unbounded_doubling 128 (length ([] :: 'a list) + length vs)
          * unat (element_size (Memory_Profiler_Queue_initialize esize :: 'a Memory_Profiler_Queue))
        \<le> unat SIZE_MAX"
    using assms(2,4) by (simp add: unbounded_doubling_10000 Memory_Profiler_Queue_initialize_def)
  from store_records_holds[OF start assms(3) this]
  obtain q where q: "store_records realloc vs (Memory_Profiler_Queue_initialize esize) = Some q"
    and h: "holds q vs" by auto
  have ne: "vs \<noteq> []" using assms(4) by auto
  have cnt: "unat (count q) = 10000" using h assms(4) by (simp add: holds_def)
  have cap: "unat (capacity q) = 16384"
    using h ne assms(4) by (simp add: holds_def unbounded_doubling_10000)
  have rd: "retrieve q i = Some (vs ! i)" if "i < 10000" for i
    using holds_retrieve[OF h, of i] that assms(4) by simp
  show ?thesis
    using q cnt cap rd
    by (simp add: unbounded_doubling_10000 MEMORY_PROFILER_QUEUE_DEFAULT_COUNT_def)
qed

theorem growth_to_10000_records_witness:
  "0 < unat (8 :: size_t) \<and> 16384 * unat (8 :: size_t) \<le> unat SIZE_MAX \<and>
   (\<forall>bytes. realloc_zeroed bytes \<noteq> None) \<and> length (replicate 10000 (7 :: nat)) = 10000 \<and>
   (\<exists>q. store_records realloc_zeroed (replicate 10000 7) (Memory_Profiler_Queue_initialize 8) = Some q \<and>
        unat (count q) = 10000 \<and> unat (capacity q) = 16384 \<and>
        retrieve q 0 = Some 7 \<and> retrieve q 9999 = Some 7)"
proof -
  have h1: "0 < unat (8 :: size_t)" by simp
  have h2: "16384 * unat (8 :: size_t) \<le> unat SIZE_MAX" by (simp add: unat_SIZE_MAX)
  have h3: "\<forall>bytes. realloc_zeroed bytes \<noteq> None" by (simp add: realloc_zeroed_def)
  have h4: "length (replicate 10000 (7 :: nat)) = 10000" by simp
  from growth_to_10000_records[OF h1 h2 h3 h4]
  obtain q where "store_records realloc_zeroed (replicate 10000 7) (Memory_Profiler_Queue_initialize 8) = Some q"
    "unat (count q) = 10000" "unat (capacity q) = 128 * 2 ^ 7"
    "retrieve q 0 = Some (replicate 10000 7 ! 0)" "retrieve q 9999 = Some (replicate 10000 7 ! 9999)"
    by blast
  then have "\<exists>q. store_records realloc_zeroed (replicate 10000 7) (Memory_Profiler_Queue_initialize 8) = Some q \<and>
        unat (count q) = 10000 \<and> unat (capacity q) = 16384 \<and>
        retrieve q 0 = Some 7 \<and> retrieve q 9999 = Some 7"
    by (intro exI[of _ q]) simp
  with h1 h2 h3 h4 show ?thesis by blast
qed

text \<open>
  C6.  For an element of a real size (at least one byte, twice the size within
  \<^verbatim>\<open>size_t\<close>) and every requested capacity, \<^verbatim>\<open>Memory_Profiler_Queue_resize\<close> returns 0,
  1 or -1.  When it returns -1 the queue is unchanged.  When the queue must grow and the
  capacity that doubling reaches in unbounded arithmetic, times the element size, exceeds
  \<^verbatim>\<open>SIZE_MAX\<close> (the largest product of the doubling steps and of the final allocation),
  it returns -1.  When it returns 1, \<^verbatim>\<open>realloc\<close> was asked for the new capacity times the
  element size, a product that did not wrap, and the new capacity is the capacity of
  unbounded doubling and covers the request.
\<close>

theorem resize_rejects_overflow:
  assumes "0 < unat (element_size q)" and "unat (element_size q) < 2 ^ 63"
  shows "\<exists>ret q'. Memory_Profiler_Queue_resize realloc q req = Some (ret, q') \<and>
    (ret = 0 \<or> ret = 1 \<or> ret = - 1) \<and>
    (ret = - 1 \<longrightarrow> q' = q) \<and>
    (capacity q < req \<and>
     unat SIZE_MAX < unbounded_doubling (first_capacity q) (unat req) * unat (element_size q)
       \<longrightarrow> ret = - 1) \<and>
    (ret = 1 \<longrightarrow>
       (\<exists>fresh. realloc (capacity q' * element_size q) = Some fresh) \<and>
       unat (capacity q' * element_size q) = unat (capacity q') * unat (element_size q) \<and>
       unat (capacity q') = unbounded_doubling (first_capacity q) (unat req) \<and>
       req \<le> capacity q' \<and> capacity q < capacity q')"
proof -
  define T where "T = unbounded_doubling (first_capacity q) (unat req)"
  note char = resize_char[OF assms, of realloc req, folded T_def]
  show ?thesis
  proof (cases "req \<le> capacity q")
    case True
    then have "\<not> capacity q < req" by simp
    then show ?thesis using char True by simp
  next
    case big: False
    show ?thesis
    proof (cases "unat SIZE_MAX < T * unat (element_size q)")
      case True
      then show ?thesis using char big by (simp add: T_def)
    next
      case fits: False
      then have le: "T * unat (element_size q) \<le> unat SIZE_MAX" by simp
      have uT: "unat (of_nat T :: size_t) = T" using assms(1) le by (rule doubled_fits_word)
      have "T * unat (element_size q) < 2 ^ 64" using le by (simp add: unat_SIZE_MAX)
      then have prod: "unat (of_nat T * element_size q) = T * unat (element_size q)"
        by (simp add: unat_word_ariths uT)
      have reqT: "unat req \<le> T"
        unfolding T_def using first_capacity_pos by (rule unbounded_doubling_reaches)
      then have req: "req \<le> of_nat T" by (simp add: word_le_nat_alt uT)
      have lt: "capacity q < of_nat T" using big req by simp
      show ?thesis
      proof (cases "realloc (of_nat T * element_size q)")
        case None
        then show ?thesis using char big fits by (simp add: T_def)
      next
        case (Some fresh)
        then show ?thesis using char big fits prod req lt uT by (simp add: T_def)
      qed
    qed
  qed
qed

lemma example_resize_grows:
  "map_option fst
     (Memory_Profiler_Queue_resize realloc_zeroed (Memory_Profiler_Queue_initialize 40) 1000) = Some 1 \<and>
   map_option (capacity \<circ> snd)
     (Memory_Profiler_Queue_resize realloc_zeroed (Memory_Profiler_Queue_initialize 40) 1000) = Some 1024"
  by code_simp

theorem resize_rejects_overflow_witness:
  "0 < unat (element_size (Memory_Profiler_Queue_initialize 40 :: nat Memory_Profiler_Queue)) \<and>
   unat (element_size (Memory_Profiler_Queue_initialize 40 :: nat Memory_Profiler_Queue)) < 2 ^ 63 \<and>
   Memory_Profiler_Queue_resize realloc_zeroed (Memory_Profiler_Queue_initialize 40) (2 ^ 62) =
     Some (- 1, Memory_Profiler_Queue_initialize 40) \<and>
   map_option fst
     (Memory_Profiler_Queue_resize realloc_zeroed (Memory_Profiler_Queue_initialize 40) 1000) = Some 1 \<and>
   map_option (capacity \<circ> snd)
     (Memory_Profiler_Queue_resize realloc_zeroed (Memory_Profiler_Queue_initialize 40) 1000) = Some 1024"
proof -
  let ?q = "Memory_Profiler_Queue_initialize 40 :: nat Memory_Profiler_Queue"
  have h1: "0 < unat (element_size ?q)" by (simp add: Memory_Profiler_Queue_initialize_def)
  have h2: "unat (element_size ?q) < 2 ^ 63" by (simp add: Memory_Profiler_Queue_initialize_def)
  have "unat (2 ^ 62 :: size_t) \<le> unbounded_doubling (first_capacity ?q) (unat (2 ^ 62 :: size_t))"
    using first_capacity_pos by (rule unbounded_doubling_reaches)
  then have "2 ^ 62 * 40 \<le> unbounded_doubling (first_capacity ?q) (unat (2 ^ 62 :: size_t)) * 40"
    by simp
  then have over: "unat SIZE_MAX < unbounded_doubling (first_capacity ?q) (unat (2 ^ 62 :: size_t)) * unat (element_size ?q)"
    by (simp add: unat_SIZE_MAX Memory_Profiler_Queue_initialize_def)
  have big: "capacity ?q < 2 ^ 62" by (simp add: Memory_Profiler_Queue_initialize_def)
  from resize_rejects_overflow[OF h1 h2, of realloc_zeroed "2 ^ 62"] over big
  have "Memory_Profiler_Queue_resize realloc_zeroed ?q (2 ^ 62) = Some (- 1, ?q)" by auto
  with h1 h2 example_resize_grows show ?thesis by blast
qed

text \<open>
  C8, as amended.  Along every sequence of \<^verbatim>\<open>push\<close>, \<^verbatim>\<open>at\<close>, \<^verbatim>\<open>clear\<close>, \<^verbatim>\<open>resize\<close> and
  \<^verbatim>\<open>free\<close> calls on a queue initialised with a real element size, after every call the
  count is at most the capacity and the capacity is 0 or 128 doubled some times; no call
  but \<^verbatim>\<open>free\<close> lowers the capacity, and a call that changes it leaves the capacity it
  started from (the floor 128 for an empty queue) doubled some times; \<^verbatim>\<open>clear\<close> sets the
  count to 0 and changes nothing else; \<^verbatim>\<open>free\<close> gives the block back and sets capacity
  and count to 0.
\<close>

theorem queue_calls_invariant:
  assumes "0 < unat esize" and "unat esize < 2 ^ 63"
    and "queue_calls cs (Memory_Profiler_Queue_initialize esize) = Some qs"
  shows "length qs = length cs \<and>
    (\<forall>i<length cs. call_respects (cs ! i) ((Memory_Profiler_Queue_initialize esize # qs) ! i) (qs ! i))"
  using queue_calls_respect[OF queue_ok_initialize[OF assms(1,2)] assms(3)] .

lemma example_queue_calls:
  "queue_calls [Push realloc_zeroed, Push realloc_zeroed, At 1, Clear, Resize realloc_zeroed 300, Free]
         (Memory_Profiler_Queue_initialize 8) =
       Some [\<lparr>base = replicate 128 0, capacity = 128, count = 1, element_size = 8\<rparr>,
             \<lparr>base = replicate 128 0, capacity = 128, count = 2, element_size = 8\<rparr>,
             \<lparr>base = replicate 128 0, capacity = 128, count = 2, element_size = 8\<rparr>,
             \<lparr>base = replicate 128 0, capacity = 128, count = 0, element_size = 8\<rparr>,
             \<lparr>base = replicate 512 0, capacity = 512, count = 0, element_size = 8\<rparr>,
             \<lparr>base = [], capacity = 0, count = 0, element_size = 8\<rparr>]"
  by code_simp

theorem queue_calls_invariant_witness:
  "0 < unat (8 :: size_t) \<and> unat (8 :: size_t) < 2 ^ 63 \<and>
   queue_calls [Push realloc_zeroed, Push realloc_zeroed, At 1, Clear, Resize realloc_zeroed 300, Free]
         (Memory_Profiler_Queue_initialize 8) =
       Some [\<lparr>base = replicate 128 0, capacity = 128, count = 1, element_size = 8\<rparr>,
             \<lparr>base = replicate 128 0, capacity = 128, count = 2, element_size = 8\<rparr>,
             \<lparr>base = replicate 128 0, capacity = 128, count = 2, element_size = 8\<rparr>,
             \<lparr>base = replicate 128 0, capacity = 128, count = 0, element_size = 8\<rparr>,
             \<lparr>base = replicate 512 0, capacity = 512, count = 0, element_size = 8\<rparr>,
             \<lparr>base = [], capacity = 0, count = 0, element_size = 8\<rparr>] \<and>
   call_respects Clear
     \<lparr>base = replicate 128 (0 :: nat), capacity = 128, count = 2, element_size = 8\<rparr>
     \<lparr>base = replicate 128 0, capacity = 128, count = 0, element_size = 8\<rparr> \<and>
   call_respects (Resize realloc_zeroed 300)
     \<lparr>base = replicate 128 0, capacity = 128, count = 0, element_size = 8\<rparr>
     \<lparr>base = replicate 512 0, capacity = 512, count = 0, element_size = 8\<rparr> \<and>
   call_respects Free
     \<lparr>base = replicate 512 (0 :: nat), capacity = 512, count = 0, element_size = 8\<rparr>
     \<lparr>base = [], capacity = 0, count = 0, element_size = 8\<rparr>"
proof -
  have h1: "0 < unat (8 :: size_t)" by simp
  have h2: "unat (8 :: size_t) < 2 ^ 63" by simp
  note all = queue_calls_invariant[OF h1 h2 example_queue_calls, THEN conjunct2]
  have "call_respects Clear
     \<lparr>base = replicate 128 (0 :: nat), capacity = 128, count = 2, element_size = 8\<rparr>
     \<lparr>base = replicate 128 0, capacity = 128, count = 0, element_size = 8\<rparr>"
    using all[rule_format, of 3] by simp
  moreover have "call_respects (Resize realloc_zeroed 300)
     \<lparr>base = replicate 128 0, capacity = 128, count = 0, element_size = 8\<rparr>
     \<lparr>base = replicate 512 0, capacity = 512, count = 0, element_size = 8\<rparr>"
    using all[rule_format, of 4] by simp
  moreover have "call_respects Free
     \<lparr>base = replicate 512 (0 :: nat), capacity = 512, count = 0, element_size = 8\<rparr>
     \<lparr>base = [], capacity = 0, count = 0, element_size = 8\<rparr>"
    using all[rule_format, of 5] by simp
  ultimately show ?thesis using h1 h2 example_queue_calls by blast
qed

text \<open>
  C8 as stated fails: \<^verbatim>\<open>Memory_Profiler_Queue_free\<close> is one of the operations, and after a
  first \<^verbatim>\<open>push\<close> has raised the capacity to 128 it sets the capacity back to 0.
\<close>

theorem queue_free_lowers_capacity:
  "map_option (map capacity)
     (queue_calls [Push realloc_zeroed, Free] (Memory_Profiler_Queue_initialize 8)) = Some [128, 0]
   \<and> (0 :: size_t) < 128"
  by code_simp

section \<open>Claims about the event store\<close>

text \<open>
  C1.  Whatever calls are made into a store fresh from \<^verbatim>\<open>Memory_Profiler_Events_new\<close>,
  in whatever order (enqueues, deferred callbacks and flushes, from outside and, through
  the conducts, from within the handler while a drain runs), every call returns.  The
  enqueue calls that were made are the ones the sequence prescribes, given the values they
  returned: the \<open>Enqueue\<close> calls of the sequence and those of the handlers of the events
  each drain found waiting, and no other.  The requests of the calls that returned 1, in
  the order of the calls, are those of the events given to the handler so far, in the
  order they were given, followed by those of the events waiting in the available queue.
  So the \<open>i\<close>-th event handled is the \<open>i\<close>-th request accepted: none is handled twice
  or out of order, and a creation accepted before a destruction is handled before it; and
  the next drain, by callback or by flush, leaves exactly the accepted requests handled.
\<close>

theorem events_processed_once_in_order:
  assumes "Memory_Profiler_Events_new wrapper (Some job) = Inr ev"
  shows "\<exists>h. store_calls cs (host_with ev) = Some h \<and>
    map fst (enqueue_calls h) = prescribed_calls cs 0 (map snd (enqueue_calls h)) \<and>
    map request_of (processed h) @ map request_of (pending (available (events h))) =
      accepted_of (enqueue_calls h) \<and>
    (\<forall>i<length (processed h). request_of (processed h ! i) = accepted_of (enqueue_calls h) ! i) \<and>
    (\<forall>conducts. \<exists>h'. Memory_Profiler_Events_process_queue conducts h = Some h' \<and>
                      map request_of (processed h') = accepted_of (enqueue_calls h)) \<and>
    (\<forall>conducts. \<exists>h'. Memory_Profiler_Events_process_all conducts h = Some (Inr h') \<and>
                      map request_of (processed h') = accepted_of (enqueue_calls h))"
proof -
  have e0: "enqueue_calls (host_with ev) = []" "pending (available (events (host_with ev))) = []"
    using assms
    by (auto simp: host_with_def Memory_Profiler_Events_new_def pending_def
        Memory_Profiler_Queue_initialize_def)
  from store_calls_idle[OF idle_new[OF assms], of cs]
  obtain h made where run: "store_calls cs (host_with ev) = Some h" and idle: "idle h"
    and ec: "enqueue_calls h = enqueue_calls (host_with ev) @ made"
    and pc: "map fst made =
      prescribed_calls cs (length (pending (available (events (host_with ev))))) (map snd made)"
    by blast
  have pre: "map fst (enqueue_calls h) = prescribed_calls cs 0 (map snd (enqueue_calls h))"
    using ec pc by (simp add: e0)
  have acc: "map request_of (processed h) @ map request_of (pending (available (events h))) =
      accepted_of (enqueue_calls h)"
    using idle by (simp add: idle_def accepted_def)
  have "\<forall>i<length (processed h). request_of (processed h ! i) = accepted_of (enqueue_calls h) ! i"
    by (simp add: acc[symmetric] nth_append)
  moreover have "\<forall>conducts. \<exists>h'. Memory_Profiler_Events_process_queue conducts h = Some h' \<and>
                      map request_of (processed h') = accepted_of (enqueue_calls h)"
    using process_queue_idle[OF idle] by (simp add: accepted_def) blast
  moreover have "\<forall>conducts. \<exists>h'. Memory_Profiler_Events_process_all conducts h = Some (Inr h') \<and>
                      map request_of (processed h') = accepted_of (enqueue_calls h)"
    using process_all_idle[OF idle] by (simp add: accepted_def) blast
  ultimately show ?thesis using run pre acc by blast
qed

lemma example_calls_processed:
  "map_option processed (store_calls example_calls (host_with example_store)) =
     Some [created, destroyed]"
  by code_simp

lemma example_calls_made:
  "map_option enqueue_calls (store_calls example_calls (host_with example_store)) =
     Some [((MEMORY_PROFILER_EVENT_TYPE_NEWOBJ, Object 1, Object 2, Object 3), 1),
           ((MEMORY_PROFILER_EVENT_TYPE_FREEOBJ, Object 1, Object 2, Object 3), 1)]"
  by code_simp

theorem events_processed_once_in_order_witness:
  "Memory_Profiler_Events_new (Object 0) (Some 7) = Inr example_store \<and>
   (\<exists>h. store_calls example_calls (host_with example_store) = Some h \<and>
        processed h = [created, destroyed] \<and>
        enqueue_calls h =
          [((MEMORY_PROFILER_EVENT_TYPE_NEWOBJ, Object 1, Object 2, Object 3), 1),
           ((MEMORY_PROFILER_EVENT_TYPE_FREEOBJ, Object 1, Object 2, Object 3), 1)] \<and>
        prescribed_calls example_calls 0 [1, 1] =
          [(MEMORY_PROFILER_EVENT_TYPE_NEWOBJ, Object 1, Object 2, Object 3),
           (MEMORY_PROFILER_EVENT_TYPE_FREEOBJ, Object 1, Object 2, Object 3)] \<and>
        pending (available (events h)) = [])"
proof -
  have new: "Memory_Profiler_Events_new (Object 0) (Some 7) = Inr example_store"
    by (simp add: Memory_Profiler_Events_new_def example_store_def)
  from events_processed_once_in_order[OF new, of example_calls]
  obtain h where h: "store_calls example_calls (host_with example_store) = Some h"
    "map fst (enqueue_calls h) = prescribed_calls example_calls 0 (map snd (enqueue_calls h))"
    "map request_of (processed h) @ map request_of (pending (available (events h))) =
      accepted_of (enqueue_calls h)" by blast
  have p: "processed h = [created, destroyed]" using example_calls_processed h(1) by simp
  have m: "enqueue_calls h =
          [((MEMORY_PROFILER_EVENT_TYPE_NEWOBJ, Object 1, Object 2, Object 3), 1),
           ((MEMORY_PROFILER_EVENT_TYPE_FREEOBJ, Object 1, Object 2, Object 3), 1)]"
    using example_calls_made h(1) by simp
  have "prescribed_calls example_calls 0 [1, 1] =
          [(MEMORY_PROFILER_EVENT_TYPE_NEWOBJ, Object 1, Object 2, Object 3),
           (MEMORY_PROFILER_EVENT_TYPE_FREEOBJ, Object 1, Object 2, Object 3)]"
    using h(2) by (simp add: m)
  moreover have "pending (available (events h)) = []"
    using h(3) by (simp add: p m accepted_of_def)
  ultimately show ?thesis using new h(1) p m by blast
qed

text \<open>
  C2, as amended.  While the store is draining (the flag is set), the deferred callback
  \<^verbatim>\<open>Memory_Profiler_Events_process_queue\<close> returns at once and leaves the process as it
  was, and \<^verbatim>\<open>Memory_Profiler_Events_process_all\<close> raises \<^verbatim>\<open>RuntimeError\<close> to its caller
  without touching the process; a handler that makes the first request goes on as if it
  had not, and the second ends it with the exception, which the \<^verbatim>\<open>rb_protect\<close> around
  the handler catches (it reports the state, line 276).  Neither gives an event to the
  handler, and a drain processes each waiting event once whatever requests its handlers
  make.
\<close>

theorem drain_request_while_draining:
  assumes "processing_flag (events h) \<noteq> 0"
  shows "Memory_Profiler_Events_process_queue conducts h = Some h \<and>
    Memory_Profiler_Events_process_all conducts h =
      Some (Inl (RuntimeError ''Recursive call detected!'')) \<and>
    process_event (Process_Queue conducts # rest) r h = process_event rest r h \<and>
    process_event (Process_All conducts # rest) r h = Some (True, h) \<and>
    (\<forall>h0 outer. store_ok (events h0) \<and> processing_flag (events h0) = 0 \<longrightarrow>
       (\<exists>h'. Memory_Profiler_Events_process_queue outer h0 = Some h' \<and>
             processed h' = processed h0 @ pending (available (events h0))))"
proof -
  have "\<exists>h'. Memory_Profiler_Events_process_queue outer h0 = Some h' \<and>
             processed h' = processed h0 @ pending (available (events h0))"
    if "store_ok (events h0)" "processing_flag (events h0) = 0" for h0 outer
    using process_queue_char[OF that, of outer] by blast
  then show ?thesis
    using process_queue_draining[OF assms] process_all_draining[OF assms] by simp
qed

theorem drain_request_while_draining_witness:
  "processing_flag (events draining_example) \<noteq> 0 \<and>
   Memory_Profiler_Events_process_queue [] draining_example = Some draining_example \<and>
   Memory_Profiler_Events_process_all [] draining_example =
      Some (Inl (RuntimeError ''Recursive call detected!'')) \<and>
   store_ok (events three_waiting) \<and> processing_flag (events three_waiting) = 0 \<and>
   (\<exists>h'. Memory_Profiler_Events_process_queue
           [Conduct [Process_Queue [], Process_All []] False] three_waiting = Some h' \<and>
         processed h' = [created, destroyed, created_other])"
proof -
  have d: "processing_flag (events draining_example) \<noteq> 0"
    by (simp add: draining_example_def host_with_def)
  note ok = store_ok_three_waiting
  note fl = three_waiting_facts(1)
  note t = drain_request_while_draining[OF d, of "[]" "[]" False]
  from t ok fl obtain h' where
    "Memory_Profiler_Events_process_queue [Conduct [Process_Queue [], Process_All []] False] three_waiting = Some h'"
    "processed h' = processed three_waiting @ pending (available (events three_waiting))"
    by blast
  then have "\<exists>h'. Memory_Profiler_Events_process_queue
           [Conduct [Process_Queue [], Process_All []] False] three_waiting = Some h' \<and>
         processed h' = [created, destroyed, created_other]"
    by (intro exI[of _ h']) (simp add: three_waiting_facts)
  then show ?thesis using t d ok fl by blast
qed

text \<open>
  C2 as stated fails in one word: the error of the flush path is not unrecoverable.  It
  is the \<^verbatim>\<open>RuntimeError\<close> of \<^verbatim>\<open>rb_raise\<close>, and the store is draining only while a
  handler runs under \<^verbatim>\<open>rb_protect\<close>: when the handler of the first of three events
  calls \<^verbatim>\<open>Memory_Profiler_Events_process_all\<close>, the call raises, the drain catches the
  exception, warns once and goes on to handle the other two events.
\<close>

theorem flush_error_is_caught_by_the_drain:
  "Memory_Profiler_Events_process_all [] draining_example =
     Some (Inl (RuntimeError ''Recursive call detected!'')) \<and>
   process_event [Process_All []] False draining_example = Some (True, draining_example) \<and>
   map_option processed
     (Memory_Profiler_Events_process_queue [Conduct [Process_All []] False] three_waiting) =
     Some [created, destroyed, created_other] \<and>
   map_option warnings
     (Memory_Profiler_Events_process_queue [Conduct [Process_All []] False] three_waiting) =
     Some 1"
  by code_simp

text \<open>
  C7.  When \<^verbatim>\<open>Memory_Profiler_Queue_push\<close> returns \<^verbatim>\<open>NULL\<close> (the queue could not grow),
  as it does when the available queue is full and \<^verbatim>\<open>realloc\<close> fails,
  \<^verbatim>\<open>Memory_Profiler_Events_enqueue\<close> returns 0 and the process is exactly as before the
  call: nothing is raised, the available queue has the same count and contents, and the
  deferred callback was not triggered.
\<close>

theorem enqueue_failure_drops_event:
  assumes "store_ok (events h)"
  shows "(\<forall>q'. Memory_Profiler_Queue_push realloc (available (events h)) = Some (None, q') \<longrightarrow>
           Memory_Profiler_Events_enqueue realloc ty c k ob h = Some (0, h)) \<and>
    (capacity (available (events h)) < count (available (events h)) + 1 \<and>
     (\<forall>bytes. realloc bytes = None) \<longrightarrow>
           Memory_Profiler_Events_enqueue realloc ty c k ob h = Some (0, h))"
proof -
  have qa: "queue_ok (available (events h))" using assms by (simp add: store_ok_def)
  show ?thesis
    using enqueue_dropped[OF assms] push_fails_when_realloc_fails[OF qa] by blast
qed

lemma example_push_fails:
  "Memory_Profiler_Queue_push realloc_fails (available (events (host_with example_store))) =
     Some (None, available (events (host_with example_store)))"
  by code_simp

theorem enqueue_failure_drops_event_witness:
  "store_ok (events (host_with example_store)) \<and>
   capacity (available (events (host_with example_store)))
     < count (available (events (host_with example_store))) + 1 \<and>
   (\<forall>bytes. (realloc_fails :: Memory_Profiler_Event allocator) bytes = None) \<and>
   Memory_Profiler_Queue_push realloc_fails (available (events (host_with example_store))) =
     Some (None, available (events (host_with example_store))) \<and>
   Memory_Profiler_Events_enqueue realloc_fails MEMORY_PROFILER_EVENT_TYPE_NEWOBJ
       (Object 1) (Object 2) (Object 3) (host_with example_store) =
     Some (0, host_with example_store) \<and>
   job_triggers (host_with example_store) = 0 \<and>
   pending (available (events (host_with example_store))) = []"
proof -
  have ok: "store_ok (events (host_with example_store))"
    using store_ok_example by (simp add: host_with_def)
  from enqueue_failure_drops_event[OF ok, of realloc_fails] example_push_fails
  have "Memory_Profiler_Events_enqueue realloc_fails MEMORY_PROFILER_EVENT_TYPE_NEWOBJ
       (Object 1) (Object 2) (Object 3) (host_with example_store) =
     Some (0, host_with example_store)" by blast
  moreover have "job_triggers (host_with example_store) = 0" by (simp add: host_with_def)
  moreover have "pending (available (events (host_with example_store))) = []"
    by (simp add: host_with_def example_store_def pending_def Memory_Profiler_Queue_initialize_def)
  moreover have "capacity (available (events (host_with example_store)))
     < count (available (events (host_with example_store))) + 1"
    by (simp add: host_with_def example_store_def Memory_Profiler_Queue_initialize_def)
  moreover have "\<forall>bytes. (realloc_fails :: Memory_Profiler_Event allocator) bytes = None"
    by (simp add: realloc_fails_def)
  ultimately show ?thesis using ok example_push_fails by blast
qed

text \<open>
  C3.  The loop of the drain is its body (lines 267-293: the event is given to the
  handler, then the slot is reset) repeated while the index is below the count of the
  processing queue.  In a drain of an idle store, started after the exchange of the
  queues, the loop comes to every index \<open>k\<close> up to the count, and the process it is in
  when it comes there is this: the first \<open>k\<close> events have been given to the handler,
  their \<open>k\<close> slots hold the sentinel kind and \<^verbatim>\<open>Qnil\<close> for the three references, the
  later slots are untouched, the count of the processing queue is still what it was, and
  a mark walk of the processing queue gives the collector the references of the events
  not yet handled and nothing else.  One more pass through the body, at index \<open>k\<close>,
  gives event \<open>k\<close> to the handler, which returns with the processing queue as it found
  it, and then resets slot \<open>k\<close>, changing nothing else of the processing queue.  So each
  slot is reset right after its event was handled and before
  the next one is, and when the loop ends every slot is reset while the count is not yet
  zeroed; only then is the count set to 0.  After the drain the count of the processing
  queue is 0, its slots are all reset, and a mark walk of it marks nothing (also with the
  count the loop left).
\<close>

theorem drain_clears_slots_before_count:
  assumes "store_ok (events h)" and "processing_flag (events h) = 0"
  shows "\<exists>h' hn. Memory_Profiler_Events_process_queue conducts h = Some h' \<and>
    Memory_Profiler_Events_process_queue_from conducts 0 (drain_started h) = Some hn \<and>
    process_queue_reaches (unat (count (available (events h)))) conducts (drain_started h) = Some hn \<and>
    h' = hn\<lparr>events := (events hn)\<lparr>processing := Memory_Profiler_Queue_clear (processing (events hn)),
                                  processing_flag := 0\<rparr>\<rparr> \<and>
    count (processing (events hn)) = count (available (events h)) \<and>
    (\<forall>j<unat (count (available (events h))). cleared (base (processing (events hn)) ! j)) \<and>
    count (processing (events h')) = 0 \<and>
    (\<forall>j<unat (count (available (events h))). cleared (base (processing (events h')) ! j)) \<and>
    Memory_Profiler_Events_mark_queue (processing (events h')) 1 = Some [] \<and>
    Memory_Profiler_Events_mark_queue (processing (events hn)) 1 = Some [] \<and>
    (\<forall>k\<le>unat (count (available (events h))).
       \<exists>hk. process_queue_reaches k conducts (drain_started h) = Some hk \<and>
            Memory_Profiler_Events_process_queue_from conducts 0 (drain_started h) =
               Memory_Profiler_Events_process_queue_from (drop k conducts) k hk \<and>
            processed hk = processed h @ take k (pending (available (events h))) \<and>
            count (processing (events hk)) = count (available (events h)) \<and>
            (\<forall>j<k. cleared (base (processing (events hk)) ! j)) \<and>
            drop k (pending (processing (events hk))) = drop k (pending (available (events h))) \<and>
            Memory_Profiler_Events_mark_queue (processing (events hk)) 1 =
              Some (concat (map references_of
                      (filter (walked 1) (drop k (pending (available (events h))))))) \<and>
            (k < unat (count (available (events h))) \<longrightarrow>
               (\<exists>hk'. process_queue_body (drop k conducts) k hk = Some hk' \<and>
                  (\<exists>state h2. Memory_Profiler_Events_process_event_protected (drop k conducts)
                       (hk\<lparr>processed := processed hk @ [base (processing (events hk)) ! k]\<rparr>) =
                     Some (state, h2) \<and>
                     processing (events h2) = processing (events hk) \<and>
                     clear_event k (if state then rb_warning h2 else h2) = Some hk') \<and>
                  processed hk' = processed hk @ [base (processing (events hk)) ! k] \<and>
                  processing (events hk') =
                    (processing (events hk))\<lparr>base := (base (processing (events hk)))
                       [k := clear_slot (base (processing (events hk)) ! k)]\<rparr>))) \<and>
    (\<forall>cd i g. Memory_Profiler_Events_process_queue_from cd i g =
       (if i < unat (count (processing (events g)))
        then process_queue_body cd i g \<bind> Memory_Profiler_Events_process_queue_from (tl cd) (i + 1)
        else Some g))"
proof -
  let ?s = "drain_started h"
  let ?A = "available (events h)"
  let ?n = "unat (count ?A)"
  have oks: "store_ok (events ?s)" using assms(1) by (rule drain_started_ok)
  have fls: "processing_flag (events ?s) \<noteq> 0" by (simp add: drain_started_def)
  have Ps: "processing (events ?s) = ?A" by (simp add: drain_started_def)
  have prs: "processed ?s = processed h" by (simp add: drain_started_def)
  have okA: "queue_ok ?A" using assms(1) by (simp add: store_ok_def)
  have fit: "?n \<le> length (base ?A)" using okA by (rule queue_ok_fits)
  have prefix: "\<exists>hk. process_queue_reaches k conducts ?s = Some hk \<and>
            Memory_Profiler_Events_process_queue_from conducts 0 ?s =
               Memory_Profiler_Events_process_queue_from (drop k conducts) k hk \<and>
            store_ok (events hk) \<and> processing_flag (events hk) \<noteq> 0 \<and>
            processed hk = processed h @ take k (pending ?A) \<and>
            processing (events hk) = ?A\<lparr>base := map clear_slot (take k (base ?A)) @ drop k (base ?A)\<rparr>"
    if "k \<le> ?n" for k
    using loop_prefix[OF oks fls, of k conducts] that by (auto simp: Ps prs drain_started_def)
  have at_k: "\<exists>hk. process_queue_reaches k conducts ?s = Some hk \<and>
            Memory_Profiler_Events_process_queue_from conducts 0 ?s =
               Memory_Profiler_Events_process_queue_from (drop k conducts) k hk \<and>
            processed hk = processed h @ take k (pending ?A) \<and>
            count (processing (events hk)) = count ?A \<and>
            (\<forall>j<k. cleared (base (processing (events hk)) ! j)) \<and>
            drop k (pending (processing (events hk))) = drop k (pending ?A) \<and>
            Memory_Profiler_Events_mark_queue (processing (events hk)) 1 =
              Some (concat (map references_of (filter (walked 1) (drop k (pending ?A))))) \<and>
            (k < ?n \<longrightarrow>
               (\<exists>hk'. process_queue_body (drop k conducts) k hk = Some hk' \<and>
                  (\<exists>state h2. Memory_Profiler_Events_process_event_protected (drop k conducts)
                       (hk\<lparr>processed := processed hk @ [base (processing (events hk)) ! k]\<rparr>) =
                     Some (state, h2) \<and>
                     processing (events h2) = processing (events hk) \<and>
                     clear_event k (if state then rb_warning h2 else h2) = Some hk') \<and>
                  processed hk' = processed hk @ [base (processing (events hk)) ! k] \<and>
                  processing (events hk') =
                    (processing (events hk))\<lparr>base := (base (processing (events hk)))
                       [k := clear_slot (base (processing (events hk)) ! k)]\<rparr>))"
    if k: "k \<le> ?n" for k
  proof -
    from prefix[OF k] obtain hk where
      re: "process_queue_reaches k conducts ?s = Some hk"
      and run: "Memory_Profiler_Events_process_queue_from conducts 0 ?s =
               Memory_Profiler_Events_process_queue_from (drop k conducts) k hk"
      and okk: "store_ok (events hk)" and flk: "processing_flag (events hk) \<noteq> 0"
      and pr: "processed hk = processed h @ take k (pending ?A)"
      and P: "processing (events hk) = ?A\<lparr>base := map clear_slot (take k (base ?A)) @ drop k (base ?A)\<rparr>"
      by blast
    have kl: "k \<le> length (base ?A)" using k fit by simp
    have cnt: "count (processing (events hk)) = count ?A" by (simp add: P)
    have "\<forall>j<k. cleared (base (processing (events hk)) ! j)"
      using nth_partly_cleared(1)[OF kl] by (simp add: P cleared_clear_slot)
    moreover have "drop k (pending (processing (events hk))) = drop k (pending ?A)"
      using kl by (simp add: P pending_partly_cleared[OF k fit])
    moreover have "Memory_Profiler_Events_mark_queue (processing (events hk)) 1 =
              Some (concat (map references_of (filter (walked 1) (drop k (pending ?A)))))"
      unfolding P by (rule mark_partly_cleared[OF okA k])
    moreover have "k < ?n \<longrightarrow>
               (\<exists>hk'. process_queue_body (drop k conducts) k hk = Some hk' \<and>
                  (\<exists>state h2. Memory_Profiler_Events_process_event_protected (drop k conducts)
                       (hk\<lparr>processed := processed hk @ [base (processing (events hk)) ! k]\<rparr>) =
                     Some (state, h2) \<and>
                     processing (events h2) = processing (events hk) \<and>
                     clear_event k (if state then rb_warning h2 else h2) = Some hk') \<and>
                  processed hk' = processed hk @ [base (processing (events hk)) ! k] \<and>
                  processing (events hk') =
                    (processing (events hk))\<lparr>base := (base (processing (events hk)))
                       [k := clear_slot (base (processing (events hk)) ! k)]\<rparr>)"
    proof
      assume "k < ?n"
      then have "k < unat (count (processing (events hk)))" by (simp add: cnt)
      from loop_step[OF okk flk this, of "drop k conducts"]
      show "\<exists>hk'. process_queue_body (drop k conducts) k hk = Some hk' \<and>
                  (\<exists>state h2. Memory_Profiler_Events_process_event_protected (drop k conducts)
                       (hk\<lparr>processed := processed hk @ [base (processing (events hk)) ! k]\<rparr>) =
                     Some (state, h2) \<and>
                     processing (events h2) = processing (events hk) \<and>
                     clear_event k (if state then rb_warning h2 else h2) = Some hk') \<and>
                  processed hk' = processed hk @ [base (processing (events hk)) ! k] \<and>
                  processing (events hk') =
                    (processing (events hk))\<lparr>base := (base (processing (events hk)))
                       [k := clear_slot (base (processing (events hk)) ! k)]\<rparr>"
        by blast
    qed
    ultimately show ?thesis using re run pr cnt by blast
  qed
  from at_k[of ?n] obtain hn where
    re: "process_queue_reaches ?n conducts ?s = Some hn"
    and run: "Memory_Profiler_Events_process_queue_from conducts 0 ?s =
               Memory_Profiler_Events_process_queue_from (drop ?n conducts) ?n hn"
    and cn: "count (processing (events hn)) = count ?A"
    and cl: "\<forall>j<?n. cleared (base (processing (events hn)) ! j)"
    and mk: "Memory_Profiler_Events_mark_queue (processing (events hn)) 1 =
              Some (concat (map references_of (filter (walked 1) (drop ?n (pending ?A)))))"
    by blast
  have "Memory_Profiler_Events_process_queue_from (drop ?n conducts) ?n hn = Some hn"
    by (subst Memory_Profiler_Events_process_queue_from.simps) (simp add: cn)
  then have loop: "Memory_Profiler_Events_process_queue_from conducts 0 ?s = Some hn"
    using run by simp
  let ?h' = "hn\<lparr>events := (events hn)\<lparr>processing := Memory_Profiler_Queue_clear (processing (events hn)),
                                  processing_flag := 0\<rparr>\<rparr>"
  have pq: "Memory_Profiler_Events_process_queue conducts h = Some ?h'"
    using process_queue_unfold[OF assms(2), of conducts] loop by simp
  have mn: "Memory_Profiler_Events_mark_queue (processing (events hn)) 1 = Some []"
    using mk by (simp add: pending_def)
  have m': "Memory_Profiler_Events_mark_queue (processing (events ?h')) 1 = Some []"
    by (subst Memory_Profiler_Events_mark_queue_def, subst Memory_Profiler_Events_mark_queue_from.simps)
      (simp add: Memory_Profiler_Queue_clear_def)
  have unf: "\<forall>cd i g. Memory_Profiler_Events_process_queue_from cd i g =
       (if i < unat (count (processing (events g)))
        then process_queue_body cd i g \<bind> Memory_Profiler_Events_process_queue_from (tl cd) (i + 1)
        else Some g)"
    using loop_unfold by blast
  have first: "Memory_Profiler_Events_process_queue conducts h = Some ?h' \<and>
    Memory_Profiler_Events_process_queue_from conducts 0 ?s = Some hn \<and>
    process_queue_reaches ?n conducts ?s = Some hn \<and>
    ?h' = hn\<lparr>events := (events hn)\<lparr>processing := Memory_Profiler_Queue_clear (processing (events hn)),
                                  processing_flag := 0\<rparr>\<rparr> \<and>
    count (processing (events hn)) = count ?A \<and>
    (\<forall>j<?n. cleared (base (processing (events hn)) ! j)) \<and>
    count (processing (events ?h')) = 0 \<and>
    (\<forall>j<?n. cleared (base (processing (events ?h')) ! j)) \<and>
    Memory_Profiler_Events_mark_queue (processing (events ?h')) 1 = Some [] \<and>
    Memory_Profiler_Events_mark_queue (processing (events hn)) 1 = Some []"
    using pq loop re cn cl mn m' by (simp add: Memory_Profiler_Queue_clear_def)
  show ?thesis
    by (rule exI[of _ ?h'], rule exI[of _ hn]) (use first at_k unf in blast)
qed

lemma three_waiting_at_1:
  "map_option (\<lambda>h1. map type (pending (processing (events h1))))
     (process_queue_reaches 1 second_raises (drain_started three_waiting)) =
   Some [MEMORY_PROFILER_EVENT_TYPE_NONE, MEMORY_PROFILER_EVENT_TYPE_FREEOBJ,
         MEMORY_PROFILER_EVENT_TYPE_NEWOBJ]"
  by code_simp

lemma example_body_at_1:
  "map_option processed
     (process_queue_reaches 1 second_raises (drain_started three_waiting)
        \<bind> process_queue_body (drop 1 second_raises) 1) = Some [created, destroyed]"
  by code_simp

theorem drain_clears_slots_before_count_witness:
  "store_ok (events three_waiting) \<and> processing_flag (events three_waiting) = 0 \<and>
   (\<exists>h' hn. Memory_Profiler_Events_process_queue second_raises three_waiting = Some h' \<and>
      Memory_Profiler_Events_process_queue_from second_raises 0 (drain_started three_waiting) = Some hn \<and>
      process_queue_reaches 3 second_raises (drain_started three_waiting) = Some hn \<and>
      unat (count (processing (events hn))) = 3 \<and>
      cleared (base (processing (events hn)) ! 0) \<and>
      cleared (base (processing (events hn)) ! 1) \<and>
      cleared (base (processing (events hn)) ! 2) \<and>
      count (processing (events h')) = 0 \<and>
      Memory_Profiler_Events_mark_queue (processing (events h')) 1 = Some []) \<and>
   (\<exists>h1 h2. process_queue_reaches 1 second_raises (drain_started three_waiting) = Some h1 \<and>
         processed h1 = [created] \<and>
         unat (count (processing (events h1))) = 3 \<and>
         cleared (base (processing (events h1)) ! 0) \<and>
         map type (pending (processing (events h1))) =
           [MEMORY_PROFILER_EVENT_TYPE_NONE, MEMORY_PROFILER_EVENT_TYPE_FREEOBJ,
            MEMORY_PROFILER_EVENT_TYPE_NEWOBJ] \<and>
         Memory_Profiler_Events_mark_queue (processing (events h1)) 1 =
           Some [Object 1, Object 2, Object 1, Object 2, Object 4] \<and>
         (1 :: nat) < unat (count (available (events three_waiting))) \<and>
         process_queue_body (drop 1 second_raises) 1 h1 = Some h2 \<and>
         processed h2 = [created, destroyed])"
proof -
  note ok = store_ok_three_waiting
  note fl = three_waiting_facts(1)
  note t = drain_clears_slots_before_count[OF ok fl, of second_raises]
  have one: "(1 :: nat) \<le> unat (count (available (events three_waiting)))"
    and lt: "(1 :: nat) < unat (count (available (events three_waiting)))"
    by (simp_all add: three_waiting_facts)
  from t obtain h' hn where all:
    "Memory_Profiler_Events_process_queue second_raises three_waiting = Some h'"
    "Memory_Profiler_Events_process_queue_from second_raises 0 (drain_started three_waiting) = Some hn"
    "process_queue_reaches (unat (count (available (events three_waiting)))) second_raises
       (drain_started three_waiting) = Some hn"
    "count (processing (events hn)) = count (available (events three_waiting))"
    "\<forall>j<unat (count (available (events three_waiting))). cleared (base (processing (events hn)) ! j)"
    "count (processing (events h')) = 0"
    "Memory_Profiler_Events_mark_queue (processing (events h')) 1 = Some []"
    and each: "\<forall>k\<le>unat (count (available (events three_waiting))).
       \<exists>hk. process_queue_reaches k second_raises (drain_started three_waiting) = Some hk \<and>
            Memory_Profiler_Events_process_queue_from second_raises 0 (drain_started three_waiting) =
               Memory_Profiler_Events_process_queue_from (drop k second_raises) k hk \<and>
            processed hk = processed three_waiting @ take k (pending (available (events three_waiting))) \<and>
            count (processing (events hk)) = count (available (events three_waiting)) \<and>
            (\<forall>j<k. cleared (base (processing (events hk)) ! j)) \<and>
            drop k (pending (processing (events hk))) = drop k (pending (available (events three_waiting))) \<and>
            Memory_Profiler_Events_mark_queue (processing (events hk)) 1 =
              Some (concat (map references_of
                      (filter (walked 1) (drop k (pending (available (events three_waiting))))))) \<and>
            (k < unat (count (available (events three_waiting))) \<longrightarrow>
               (\<exists>hk'. process_queue_body (drop k second_raises) k hk = Some hk' \<and>
                  (\<exists>state h2. Memory_Profiler_Events_process_event_protected (drop k second_raises)
                       (hk\<lparr>processed := processed hk @ [base (processing (events hk)) ! k]\<rparr>) =
                     Some (state, h2) \<and>
                     processing (events h2) = processing (events hk) \<and>
                     clear_event k (if state then rb_warning h2 else h2) = Some hk') \<and>
                  processed hk' = processed hk @ [base (processing (events hk)) ! k] \<and>
                  processing (events hk') =
                    (processing (events hk))\<lparr>base := (base (processing (events hk)))
                       [k := clear_slot (base (processing (events hk)) ! k)]\<rparr>))"
    by (elim exE conjE) (rule that, assumption+)
  from each[rule_format, OF one] obtain h1 where h1:
    "process_queue_reaches 1 second_raises (drain_started three_waiting) = Some h1"
    "processed h1 = processed three_waiting @ take 1 (pending (available (events three_waiting)))"
    "count (processing (events h1)) = count (available (events three_waiting))"
    "\<forall>j<1. cleared (base (processing (events h1)) ! j)"
    "Memory_Profiler_Events_mark_queue (processing (events h1)) 1 =
       Some (concat (map references_of
               (filter (walked 1) (drop 1 (pending (available (events three_waiting)))))))"
    and nx: "1 < unat (count (available (events three_waiting))) \<longrightarrow>
               (\<exists>hk'. process_queue_body (drop 1 second_raises) 1 h1 = Some hk' \<and>
                  (\<exists>state h2. Memory_Profiler_Events_process_event_protected (drop 1 second_raises)
                       (h1\<lparr>processed := processed h1 @ [base (processing (events h1)) ! 1]\<rparr>) =
                     Some (state, h2) \<and>
                     processing (events h2) = processing (events h1) \<and>
                     clear_event 1 (if state then rb_warning h2 else h2) = Some hk') \<and>
                  processed hk' = processed h1 @ [base (processing (events h1)) ! 1] \<and>
                  processing (events hk') =
                    (processing (events h1))\<lparr>base := (base (processing (events h1)))
                       [1 := clear_slot (base (processing (events h1)) ! 1)]\<rparr>)"
    by (elim exE conjE) (rule that, assumption+)
  from nx lt obtain h2 where h2: "process_queue_body (drop 1 second_raises) 1 h1 = Some h2"
    by blast
  have ty: "map type (pending (processing (events h1))) =
           [MEMORY_PROFILER_EVENT_TYPE_NONE, MEMORY_PROFILER_EVENT_TYPE_FREEOBJ,
            MEMORY_PROFILER_EVENT_TYPE_NEWOBJ]"
    using three_waiting_at_1 h1(1) by simp
  have p2: "processed h2 = [created, destroyed]"
    using example_body_at_1 h1(1) h2 by simp
  have first: "\<exists>h1 h2. process_queue_reaches 1 second_raises (drain_started three_waiting) = Some h1 \<and>
         processed h1 = [created] \<and>
         unat (count (processing (events h1))) = 3 \<and>
         cleared (base (processing (events h1)) ! 0) \<and>
         map type (pending (processing (events h1))) =
           [MEMORY_PROFILER_EVENT_TYPE_NONE, MEMORY_PROFILER_EVENT_TYPE_FREEOBJ,
            MEMORY_PROFILER_EVENT_TYPE_NEWOBJ] \<and>
         Memory_Profiler_Events_mark_queue (processing (events h1)) 1 =
           Some [Object 1, Object 2, Object 1, Object 2, Object 4] \<and>
         (1 :: nat) < unat (count (available (events three_waiting))) \<and>
         process_queue_body (drop 1 second_raises) 1 h1 = Some h2 \<and>
         processed h2 = [created, destroyed]"
    using h1 h2 ty p2 lt
    by (intro exI[of _ h1] exI[of _ h2])
      (simp add: three_waiting_facts references_of_def sentinel_def destroyed_def created_other_def)
  from all have "\<exists>h' hn. Memory_Profiler_Events_process_queue second_raises three_waiting = Some h' \<and>
      Memory_Profiler_Events_process_queue_from second_raises 0 (drain_started three_waiting) = Some hn \<and>
      process_queue_reaches 3 second_raises (drain_started three_waiting) = Some hn \<and>
      unat (count (processing (events hn))) = 3 \<and>
      cleared (base (processing (events hn)) ! 0) \<and>
      cleared (base (processing (events hn)) ! 1) \<and>
      cleared (base (processing (events hn)) ! 2) \<and>
      count (processing (events h')) = 0 \<and>
      Memory_Profiler_Events_mark_queue (processing (events h')) 1 = Some []"
    by (intro exI[of _ h'] exI[of _ hn]) (simp add: three_waiting_facts)
  then show ?thesis using ok fl first by blast
qed

text \<open>
  C4.  When the handler raises on the event of index \<open>k\<close> of the waiting ones, the drain
  still returns (it raises nothing and does not stop on the way), every waiting event was
  given to the handler once and in order, the ones after the faulting one included, and
  one warning was issued for each event the handler faulted on.  The processing queue is
  left empty.  The enqueue calls made during the drain are those of the handlers of the
  waiting events, read off their conducts, and no other: the store makes none of its own.
  The available queue holds what it held before as processing queue (nothing, in an idle
  store) and one event for each of those calls that returned 1: the faulting event is not
  queued again, and when the handlers enqueue nothing the available queue is as the
  processing queue was.  The next drain gives the handler those events only.
\<close>

theorem drain_contains_faults:
  assumes "store_ok (events h)" and "processing_flag (events h) = 0"
    and "k < unat (count (available (events h)))" and "k < length conducts"
    and "raises (conducts ! k)"
  shows "\<exists>h' made new. Memory_Profiler_Events_process_queue conducts h = Some h' \<and>
    processed h' = processed h @ pending (available (events h)) \<and>
    warnings h' = warnings h
        + length (filter faults (take (unat (count (available (events h)))) conducts)) \<and>
    warnings h < warnings h' \<and>
    processing_flag (events h') = 0 \<and>
    count (processing (events h')) = 0 \<and>
    enqueue_calls h' = enqueue_calls h @ made \<and>
    map fst made = handler_requests (take (unat (count (available (events h)))) conducts) \<and>
    map request_of new = accepted_of made \<and>
    pending (available (events h')) = pending (processing (events h)) @ new \<and>
    (handler_requests (take (unat (count (available (events h)))) conducts) = [] \<longrightarrow>
       enqueue_calls h' = enqueue_calls h \<and>
       pending (available (events h')) = pending (processing (events h))) \<and>
    (\<forall>next. \<exists>h''. Memory_Profiler_Events_process_queue next h' = Some h'' \<and>
       processed h'' = processed h' @ pending (processing (events h)) @ new)"
proof -
  let ?n = "unat (count (available (events h)))"
  from process_queue_char[OF assms(1,2), of conducts]
  obtain h' made new where pq: "Memory_Profiler_Events_process_queue conducts h = Some h'"
    and ok': "store_ok (events h')"
    and rest: "processing_flag (events h') = 0"
      "processed h' = processed h @ pending (available (events h))"
      "count (processing (events h')) = 0"
      "enqueue_calls h' = enqueue_calls h @ made"
      "map fst made = handler_requests (take ?n conducts)"
      "map request_of new = accepted_of made"
      "pending (available (events h')) = pending (processing (events h)) @ new"
      "warnings h' = warnings h + length (filter faults (take ?n conducts))"
    by fastforce
  have "conducts ! k \<in> set (take ?n conducts)"
    using assms(3,4) by (metis in_set_conv_nth length_take min_less_iff_conj nth_take)
  moreover have "faults (conducts ! k)" using assms(5) by (simp add: faults_def)
  ultimately have "conducts ! k \<in> set (filter faults (take ?n conducts))" by simp
  then have pos: "0 < length (filter faults (take ?n conducts))" by (metis length_pos_if_in_set)
  have none: "enqueue_calls h' = enqueue_calls h \<and>
       pending (available (events h')) = pending (processing (events h))"
    if "handler_requests (take ?n conducts) = []"
  proof -
    have "made = []" using rest(5) that by simp
    then show ?thesis using rest(4,6,7) by simp
  qed
  have nxt: "\<exists>h''. Memory_Profiler_Events_process_queue next h' = Some h'' \<and>
       processed h'' = processed h' @ pending (processing (events h)) @ new" for "next"
    using process_queue_char[OF ok' rest(1), of "next"] rest(7) by fastforce
  show ?thesis
    by (rule exI[of _ h'], rule exI[of _ made], rule exI[of _ new])
      (use pq rest pos none nxt in simp)
qed

theorem drain_contains_faults_witness:
  "store_ok (events three_waiting) \<and> processing_flag (events three_waiting) = 0 \<and>
   1 < unat (count (available (events three_waiting))) \<and> 1 < length second_raises \<and>
   raises (second_raises ! 1) \<and>
   handler_requests (take (unat (count (available (events three_waiting)))) second_raises) = [] \<and>
   (\<exists>h'. Memory_Profiler_Events_process_queue second_raises three_waiting = Some h' \<and>
      processed h' = [created, destroyed, created_other] \<and>
      warnings h' = 1 \<and> count (processing (events h')) = 0 \<and>
      enqueue_calls h' = [] \<and>
      pending (available (events h')) = [] \<and>
      (\<exists>h''. Memory_Profiler_Events_process_queue [] h' = Some h'' \<and>
         processed h'' = [created, destroyed, created_other]))"
proof -
  note ok = store_ok_three_waiting
  note fl = three_waiting_facts(1)
  have k: "1 < unat (count (available (events three_waiting)))" by (simp add: three_waiting_facts)
  have l: "1 < length second_raises" by (simp add: second_raises_def)
  have r: "raises (second_raises ! 1)" by (simp add: second_raises_def)
  have q: "handler_requests (take (unat (count (available (events three_waiting)))) second_raises) = []"
    by (simp add: three_waiting_facts second_raises_def handler_requests_def)
  have e: "pending (processing (events three_waiting)) = []" "enqueue_calls three_waiting = []"
    by (simp_all add: three_waiting_def host_with_def example_store_def pending_def
        Memory_Profiler_Queue_initialize_def)
  from drain_contains_faults[OF ok fl k l r]
  obtain h' new where h': "Memory_Profiler_Events_process_queue second_raises three_waiting = Some h'"
    "processed h' = processed three_waiting @ pending (available (events three_waiting))"
    "warnings h' = warnings three_waiting
        + length (filter faults (take (unat (count (available (events three_waiting)))) second_raises))"
    "count (processing (events h')) = 0"
    "pending (available (events h')) = pending (processing (events three_waiting)) @ new"
    "handler_requests (take (unat (count (available (events three_waiting)))) second_raises) = [] \<longrightarrow>
       enqueue_calls h' = enqueue_calls three_waiting \<and>
       pending (available (events h')) = pending (processing (events three_waiting))"
    "\<forall>next. \<exists>h''. Memory_Profiler_Events_process_queue next h' = Some h'' \<and>
       processed h'' = processed h' @ pending (processing (events three_waiting)) @ new"
    by blast
  from h'(6) q have a: "enqueue_calls h' = []" "pending (available (events h')) = []"
    by (simp_all add: e)
  then have n: "new = []" using h'(5) by (simp add: e)
  from h'(7) obtain h'' where h'': "Memory_Profiler_Events_process_queue [] h' = Some h''"
    "processed h'' = processed h' @ pending (processing (events three_waiting)) @ new" by blast
  have p: "processed h' = [created, destroyed, created_other]"
    using h'(2) by (simp add: three_waiting_facts)
  have "processed h'' = [created, destroyed, created_other]" using h''(2) p n by (simp add: e)
  then have nx: "\<exists>h''. Memory_Profiler_Events_process_queue [] h' = Some h'' \<and>
         processed h'' = [created, destroyed, created_other]" using h''(1) by blast
  have w: "warnings h' = 1"
    using h'(3) by (simp add: three_waiting_facts second_raises_def faults_def)
  have "\<exists>h'. Memory_Profiler_Events_process_queue second_raises three_waiting = Some h' \<and>
      processed h' = [created, destroyed, created_other] \<and>
      warnings h' = 1 \<and> count (processing (events h')) = 0 \<and>
      enqueue_calls h' = [] \<and>
      pending (available (events h')) = [] \<and>
      (\<exists>h''. Memory_Profiler_Events_process_queue [] h' = Some h'' \<and>
         processed h'' = [created, destroyed, created_other])"
    using h'(1,4) p w a nx by (intro exI[of _ h']) simp
  then show ?thesis using ok fl k l r q by blast
qed

text \<open>
  C9.  The mark callback returns, and lists for the collector the references of every
  record of the available queue below its count, none skipped, then those of every record
  of the processing queue below its count that is not a sentinel, and nothing else; the
  references of a record are those of section 3 of the spec (context, class, and the
  object of an allocation).  The compaction callback rewrites through
  \<^verbatim>\<open>rb_gc_location\<close> the same references of the same records and leaves everything else
  as it was.
\<close>

theorem mark_and_compact_walk_both_queues:
  assumes "store_ok ev"
  shows "Memory_Profiler_Events_mark ev =
      Some (concat (map references_of (pending (available ev))) @
            concat (map references_of (filter (\<lambda>event. \<not> sentinel event) (pending (processing ev))))) \<and>
    Memory_Profiler_Events_compact rb_gc_location ev =
      Some (ev\<lparr>available := (available ev)\<lparr>base :=
                   map (relocated rb_gc_location) (pending (available ev))
                   @ drop (unat (count (available ev))) (base (available ev))\<rparr>,
               processing := (processing ev)\<lparr>base :=
                   map (\<lambda>event. if sentinel event then event else relocated rb_gc_location event)
                     (pending (processing ev))
                   @ drop (unat (count (processing ev))) (base (processing ev))\<rparr>\<rparr>)"
proof -
  have a: "unat (count (available ev)) \<le> length (base (available ev))"
    and p: "unat (count (processing ev)) \<le> length (base (processing ev))"
    using assms by (simp_all add: store_ok_def queue_ok_fits)
  show ?thesis
    by (simp add: Memory_Profiler_Events_mark_def Memory_Profiler_Events_compact_def
        mark_queue_char[OF a] mark_queue_char[OF p]
        compact_queue_char[OF a] compact_queue_char[OF p])
qed

theorem mark_and_compact_walk_both_queues_witness:
  "store_ok walk_example \<and>
   Memory_Profiler_Events_mark walk_example =
     Some [Object 1, Object 2, Object 3, Object 1, Object 2, Object 1, Object 2, Object 3] \<and>
   map_option (pending \<circ> available) (Memory_Profiler_Events_compact example_location walk_example) =
     Some [created\<lparr>capture := Object 11, klass := Object 12, object := Object 13\<rparr>,
           destroyed\<lparr>capture := Object 11, klass := Object 12\<rparr>] \<and>
   map_option (pending \<circ> processing) (Memory_Profiler_Events_compact example_location walk_example) =
     Some [blank_event, created\<lparr>capture := Object 11, klass := Object 12, object := Object 13\<rparr>]"
proof -
  note t0 = mark_and_compact_walk_both_queues[OF store_ok_walk_example, of example_location]
  have pa: "pending (available walk_example) = [created, destroyed]"
    and pp: "pending (processing walk_example) = [blank_event, created]"
    by (simp_all add: walk_example_def pending_queue_of)
  have ca: "unat (count (available walk_example)) = 2" and cp: "unat (count (processing walk_example)) = 2"
    by (simp_all add: walk_example_def queue_of_def)
  note t = t0[unfolded pa pp ca cp]
  have "Memory_Profiler_Events_mark walk_example =
     Some [Object 1, Object 2, Object 3, Object 1, Object 2, Object 1, Object 2, Object 3]"
    using t by (simp add: references_of_def sentinel_def created_def destroyed_def blank_event_def)
  moreover have "map_option (pending \<circ> available) (Memory_Profiler_Events_compact example_location walk_example) =
     Some [created\<lparr>capture := Object 11, klass := Object 12, object := Object 13\<rparr>,
           destroyed\<lparr>capture := Object 11, klass := Object 12\<rparr>]"
    using t by (simp add: ca pending_def relocated_def example_location_def created_def destroyed_def)
  moreover have "map_option (pending \<circ> processing) (Memory_Profiler_Events_compact example_location walk_example) =
     Some [blank_event, created\<lparr>capture := Object 11, klass := Object 12, object := Object 13\<rparr>]"
    using t by (simp add: cp pending_def relocated_def sentinel_def example_location_def
        created_def blank_event_def)
  ultimately show ?thesis using store_ok_walk_example by blast
qed

text \<open>
  C10.  For a record of kind FREEOBJ below the count of a queue, walked with either
  value of \<^verbatim>\<open>skip_none\<close>: the mark walk gives the collector its capture and its class
  and not its object; the relocation walk rewrites its capture and its class and leaves
  its object as it was.  For every record that a walk does not skip, of whatever kind,
  the capture and the class are relocated, and the object is relocated exactly when the
  kind is NEWOBJ.  An enqueue of a FREEOBJ event that returns 1 has stored the object in
  the new slot and made the three \<^verbatim>\<open>RB_OBJ_WRITE\<close> notifications, the object's included.
\<close>

theorem freed_object_stored_but_not_walked:
  assumes "unat (count q) \<le> length (base q)" and "i < unat (count q)"
    and "type (base q ! i) = MEMORY_PROFILER_EVENT_TYPE_FREEOBJ"
  shows "Memory_Profiler_Events_mark_queue q skip_none =
      Some (concat (map references_of (filter (walked skip_none) (take i (pending q)))) @
            [capture (base q ! i), klass (base q ! i)] @
            concat (map references_of (filter (walked skip_none) (drop (Suc i) (pending q))))) \<and>
    (\<exists>q'. Memory_Profiler_Events_compact_queue rb_gc_location q skip_none = Some q' \<and>
          type (base q' ! i) = MEMORY_PROFILER_EVENT_TYPE_FREEOBJ \<and>
          object (base q' ! i) = object (base q ! i) \<and>
          capture (base q' ! i) = rb_gc_location (capture (base q ! i)) \<and>
          klass (base q' ! i) = rb_gc_location (klass (base q ! i)) \<and>
          (\<forall>j<unat (count q). walked skip_none (base q ! j) \<longrightarrow>
              type (base q' ! j) = type (base q ! j) \<and>
              capture (base q' ! j) = rb_gc_location (capture (base q ! j)) \<and>
              klass (base q' ! j) = rb_gc_location (klass (base q ! j)) \<and>
              object (base q' ! j) =
                (if type (base q ! j) = MEMORY_PROFILER_EVENT_TYPE_NEWOBJ
                 then rb_gc_location (object (base q ! j)) else object (base q ! j)))) \<and>
    (\<forall>realloc h c k ob h'.
        store_ok (events h) \<and>
        Memory_Profiler_Events_enqueue realloc MEMORY_PROFILER_EVENT_TYPE_FREEOBJ c k ob h = Some (1, h')
        \<longrightarrow> (\<exists>slot. pending (available (events h')) = pending (available (events h)) @ [slot] \<and>
                    type slot = MEMORY_PROFILER_EVENT_TYPE_FREEOBJ \<and>
                    capture slot = c \<and> klass slot = k \<and> object slot = ob) \<and>
            obj_writes h' = obj_writes h @
              [(self (events h), c), (self (events h), k), (self (events h), ob)])"
proof -
  let ?e = "base q ! i"
  have il: "i < length (pending q)" using assms(1,2) by (simp add: pending_def)
  have pi: "pending q ! i = ?e" using assms(2) by (simp add: pending_def)
  have split: "pending q = take i (pending q) @ ?e # drop (Suc i) (pending q)"
    using id_take_nth_drop[OF il] by (simp add: pi)
  have w: "walked skip_none ?e" using assms(3) by (simp add: walked_def sentinel_def)
  have r: "references_of ?e = [capture ?e, klass ?e]" using assms(3) by (simp add: references_of_def)
  have "filter (walked skip_none) (pending q) =
      filter (walked skip_none) (take i (pending q)) @ ?e # filter (walked skip_none) (drop (Suc i) (pending q))"
    by (subst split) (simp add: w)
  then have mark: "Memory_Profiler_Events_mark_queue q skip_none =
      Some (concat (map references_of (filter (walked skip_none) (take i (pending q)))) @
            [capture ?e, klass ?e] @
            concat (map references_of (filter (walked skip_none) (drop (Suc i) (pending q)))))"
    by (simp add: mark_queue_char[OF assms(1)] r)
  let ?q' = "q\<lparr>base := map (moved rb_gc_location skip_none) (pending q) @ drop (unat (count q)) (base q)\<rparr>"
  have nth: "(map (moved rb_gc_location skip_none) (pending q) @ drop (unat (count q)) (base q)) ! j
      = moved rb_gc_location skip_none (base q ! j)" if "j < unat (count q)" for j
    using that assms(1) by (simp add: nth_append pending_def)
  have each: "type (base ?q' ! j) = type (base q ! j) \<and>
              capture (base ?q' ! j) = rb_gc_location (capture (base q ! j)) \<and>
              klass (base ?q' ! j) = rb_gc_location (klass (base q ! j)) \<and>
              object (base ?q' ! j) =
                (if type (base q ! j) = MEMORY_PROFILER_EVENT_TYPE_NEWOBJ
                 then rb_gc_location (object (base q ! j)) else object (base q ! j))"
    if "j < unat (count q)" "walked skip_none (base q ! j)" for j
    using that by (simp add: nth moved_def relocated_def)
  have compact: "\<exists>q'. Memory_Profiler_Events_compact_queue rb_gc_location q skip_none = Some q' \<and>
          type (base q' ! i) = MEMORY_PROFILER_EVENT_TYPE_FREEOBJ \<and>
          object (base q' ! i) = object (base q ! i) \<and>
          capture (base q' ! i) = rb_gc_location (capture (base q ! i)) \<and>
          klass (base q' ! i) = rb_gc_location (klass (base q ! i)) \<and>
          (\<forall>j<unat (count q). walked skip_none (base q ! j) \<longrightarrow>
              type (base q' ! j) = type (base q ! j) \<and>
              capture (base q' ! j) = rb_gc_location (capture (base q ! j)) \<and>
              klass (base q' ! j) = rb_gc_location (klass (base q ! j)) \<and>
              object (base q' ! j) =
                (if type (base q ! j) = MEMORY_PROFILER_EVENT_TYPE_NEWOBJ
                 then rb_gc_location (object (base q ! j)) else object (base q ! j)))"
    using each[OF assms(2) w] each assms(3)
    by (intro exI[of _ ?q']) (simp add: compact_queue_char[OF assms(1)])
  have enq: "(\<exists>slot. pending (available (events h')) = pending (available (events h)) @ [slot] \<and>
                    type slot = MEMORY_PROFILER_EVENT_TYPE_FREEOBJ \<and>
                    capture slot = c \<and> klass slot = k \<and> object slot = ob) \<and>
            obj_writes h' = obj_writes h @
              [(self (events h), c), (self (events h), k), (self (events h), ob)]"
    if ok: "store_ok (events h)"
      and e: "Memory_Profiler_Events_enqueue realloc MEMORY_PROFILER_EVENT_TYPE_FREEOBJ c k ob h = Some (1, h')"
    for realloc h c k ob h'
  proof (rule enqueue_cases[OF ok, of realloc MEMORY_PROFILER_EVENT_TYPE_FREEOBJ c k ob], goal_cases)
    case 1
    then show ?case using e by simp
  next
    case (2 h2 slot)
    then have "h2 = h'" using e by simp
    then show ?case using 2 by blast
  qed
  show ?thesis using mark compact enq by blast
qed

lemma example_enqueue_accepted:
  "map_option fst (Memory_Profiler_Events_enqueue realloc_blank MEMORY_PROFILER_EVENT_TYPE_FREEOBJ
       (Object 1) (Object 2) (Object 3) (host_with example_store)) = Some 1"
  by code_simp

theorem freed_object_stored_but_not_walked_witness:
  "unat (count (queue_of [created, destroyed])) \<le> length (base (queue_of [created, destroyed])) \<and>
   1 < unat (count (queue_of [created, destroyed])) \<and>
   type (base (queue_of [created, destroyed]) ! 1) = MEMORY_PROFILER_EVENT_TYPE_FREEOBJ \<and>
   Memory_Profiler_Events_mark_queue (queue_of [created, destroyed]) 1 =
     Some [Object 1, Object 2, Object 3, Object 1, Object 2] \<and>
   (\<exists>q'. Memory_Profiler_Events_compact_queue example_location (queue_of [created, destroyed]) 1 = Some q' \<and>
         object (base q' ! 1) = Object 3 \<and> capture (base q' ! 1) = Object 11 \<and>
         klass (base q' ! 1) = Object 12 \<and>
         object (base q' ! 0) = Object 13 \<and> capture (base q' ! 0) = Object 11) \<and>
   walked 1 (base (queue_of [created, destroyed]) ! 0) \<and>
   store_ok (events (host_with example_store)) \<and>
   (\<exists>h' slot. Memory_Profiler_Events_enqueue realloc_blank MEMORY_PROFILER_EVENT_TYPE_FREEOBJ
           (Object 1) (Object 2) (Object 3) (host_with example_store) = Some (1, h') \<and>
         pending (available (events h')) = [slot] \<and>
         type slot = MEMORY_PROFILER_EVENT_TYPE_FREEOBJ \<and> object slot = Object 3 \<and>
         obj_writes h' = [(Object 0, Object 1), (Object 0, Object 2), (Object 0, Object 3)])"
proof -
  let ?q = "queue_of [created, destroyed]"
  have a: "unat (count ?q) \<le> length (base ?q)" by (simp add: queue_of_def)
  have b: "1 < unat (count ?q)" by (simp add: queue_of_def)
  have c: "type (base ?q ! 1) = MEMORY_PROFILER_EVENT_TYPE_FREEOBJ"
    by (simp add: queue_of_def destroyed_def)
  have ok: "store_ok (events (host_with example_store))"
    using store_ok_example by (simp add: host_with_def)
  note t = freed_object_stored_but_not_walked[OF a b c, of 1 example_location]
  have p: "pending ?q = [created, destroyed]" by (simp add: pending_queue_of)
  have bq: "base ?q ! 1 = destroyed" by (simp add: queue_of_def)
  have m: "Memory_Profiler_Events_mark_queue ?q 1 =
     Some [Object 1, Object 2, Object 3, Object 1, Object 2]"
    using t[unfolded p bq, THEN conjunct1]
    by (simp add: references_of_def sentinel_def created_def destroyed_def)
  have b0: "base ?q ! 0 = created" by (simp add: queue_of_def)
  have "walked 1 created" by (simp add: sentinel_def created_def)
  then have w0: "walked 1 (base ?q ! 0)" by (simp only: b0)
  from t[unfolded bq] obtain q' where q': "Memory_Profiler_Events_compact_queue example_location ?q 1 = Some q'"
    "object (base q' ! 1) = object destroyed"
    "capture (base q' ! 1) = example_location (capture destroyed)"
    "klass (base q' ! 1) = example_location (klass destroyed)"
    and others: "\<forall>j<unat (count ?q). walked 1 (base ?q ! j) \<longrightarrow>
              type (base q' ! j) = type (base ?q ! j) \<and>
              capture (base q' ! j) = example_location (capture (base ?q ! j)) \<and>
              klass (base q' ! j) = example_location (klass (base ?q ! j)) \<and>
              object (base q' ! j) =
                (if type (base ?q ! j) = MEMORY_PROFILER_EVENT_TYPE_NEWOBJ
                 then example_location (object (base ?q ! j)) else object (base ?q ! j))"
    by blast
  have "0 < unat (count ?q)" using b by simp
  then have "capture (base q' ! 0) = example_location (capture (base ?q ! 0)) \<and>
      object (base q' ! 0) =
       (if type (base ?q ! 0) = MEMORY_PROFILER_EVENT_TYPE_NEWOBJ
        then example_location (object (base ?q ! 0)) else object (base ?q ! 0))"
    using others[rule_format, of 0] w0 by (simp only:)
  then have "capture (base q' ! 0) = example_location (capture created)"
    "object (base q' ! 0) =
       (if type created = MEMORY_PROFILER_EVENT_TYPE_NEWOBJ
        then example_location (object created) else object created)"
    by (simp_all only: b0)
  with q' have cq: "\<exists>q'. Memory_Profiler_Events_compact_queue example_location ?q 1 = Some q' \<and>
         object (base q' ! 1) = Object 3 \<and> capture (base q' ! 1) = Object 11 \<and>
         klass (base q' ! 1) = Object 12 \<and>
         object (base q' ! 0) = Object 13 \<and> capture (base q' ! 0) = Object 11"
    by (intro exI[of _ q']) (simp add: destroyed_def created_def example_location_def)
  from example_enqueue_accepted obtain h' where
    e: "Memory_Profiler_Events_enqueue realloc_blank MEMORY_PROFILER_EVENT_TYPE_FREEOBJ
           (Object 1) (Object 2) (Object 3) (host_with example_store) = Some (1, h')"
    by auto
  from t ok e obtain slot where
    "pending (available (events h')) = pending (available (events (host_with example_store))) @ [slot]"
    "type slot = MEMORY_PROFILER_EVENT_TYPE_FREEOBJ" "object slot = Object 3"
    "obj_writes h' = obj_writes (host_with example_store) @
       [(self (events (host_with example_store)), Object 1),
        (self (events (host_with example_store)), Object 2),
        (self (events (host_with example_store)), Object 3)]"
    by blast
  then have en: "\<exists>h' slot. Memory_Profiler_Events_enqueue realloc_blank MEMORY_PROFILER_EVENT_TYPE_FREEOBJ
           (Object 1) (Object 2) (Object 3) (host_with example_store) = Some (1, h') \<and>
         pending (available (events h')) = [slot] \<and>
         type slot = MEMORY_PROFILER_EVENT_TYPE_FREEOBJ \<and> object slot = Object 3 \<and>
         obj_writes h' = [(Object 0, Object 1), (Object 0, Object 2), (Object 0, Object 3)]"
    using e
    by (intro exI[of _ h'] exI[of _ slot])
      (simp add: host_with_def example_store_def pending_def Memory_Profiler_Queue_initialize_def)
  show ?thesis using a b c m cq w0 ok en by blast
qed

end
